theory Spec2Isabelle
  imports Main "HOL-Library.Word"
begin

section \<open>Runtime primitives consumed by synch.c\<close>

text \<open>
  Threads are identified by natural numbers, addresses are natural numbers with
  \<open>0\<close> as the C \<open>NULL\<close>. The spinlock, the wait-channel, the allocator and the
  current-thread context are external collaborators of \<^verbatim>\<open>kern/thread/synch.c\<close>;
  they are modelled from section 6 of the specification.
\<close>

type_synonym tid = nat
type_synonym addr = nat

text \<open>
  The spinlock and the wait-channel (\<^verbatim>\<open>spinlock.h\<close>, \<^verbatim>\<open>wchan.h\<close>) are not part of
  the sources. A spinlock records its holder; a wait-channel is the queue of the threads
  asleep on it.
\<close>

type_synonym spinlock = "tid option"

type_synonym wchan = "tid list"

text \<open>Modelled from the spec: \<open>spinlock_init\<close> (not in the sources) leaves the spinlock free.\<close>

definition spinlock_init :: spinlock where
  "spinlock_init = None"

text \<open>
  Modelled from the spec: \<open>spinlock_acquire\<close> (not in the sources) busy-waits until
  exclusive. The result \<open>None\<close> means that the caller keeps spinning at the same
  statement.
\<close>

definition spinlock_acquire :: "tid \<Rightarrow> spinlock \<Rightarrow> spinlock option" where
  "spinlock_acquire cur lk = (case lk of None \<Rightarrow> Some (Some cur) | Some h \<Rightarrow> None)"

text \<open>Modelled from the spec: \<open>spinlock_release\<close> (not in the sources) relinquishes the spinlock.\<close>

definition spinlock_release :: "spinlock \<Rightarrow> spinlock" where
  "spinlock_release lk = None"

text \<open>
  Modelled from the spec: \<open>wchan_sleep\<close> (not in the sources) atomically releases the
  guard and suspends the calling thread until woken, then reacquires the guard. This is
  the queue after the caller has been put on it; the release of the guard belongs to the
  same atomic step and the reacquisition is a step of its own, both written in the step
  functions below.
\<close>

definition wchan_sleep :: "tid \<Rightarrow> wchan \<Rightarrow> wchan" where
  "wchan_sleep cur wc = wc @ [cur]"

text \<open>
  Modelled from the spec: \<open>wchan_wakeone\<close> (not in the sources) wakes a single sleeping
  thread if any, here the head of the queue. The result is the threads woken and the
  queue left.
\<close>

definition wchan_wakeone :: "wchan \<Rightarrow> tid list \<times> wchan" where
  "wchan_wakeone wc = (case wc of [] \<Rightarrow> ([], []) | w # ws \<Rightarrow> ([w], ws))"

text \<open>Modelled from the spec: \<open>wchan_wakeall\<close> (not in the sources) wakes every sleeping thread.\<close>

definition wchan_wakeall :: "wchan \<Rightarrow> tid list \<times> wchan" where
  "wchan_wakeall wc = (wc, [])"

text \<open>A pointer argument of an operation: \<open>NULL\<close>, or the address of the object.\<close>

datatype ptr = NULL | PTR

section \<open>Semaphore: P and V\<close>

text \<open>
  \<^verbatim>\<open>struct semaphore\<close>, with the wait-channel and the name held by value
  (\<open>'n\<close> and \<open>'w\<close> are \<open>addr\<close> where the structure is seen in memory with its
  pointer fields). \<^verbatim>\<open>unsigned\<close> is a 32-bit word.
\<close>

record ('n, 'w) semaphore =
  sem_name :: 'n
  sem_wchan :: 'w
  sem_lock :: spinlock
  sem_count :: "32 word"

text \<open>
  Program points of a thread inside \<open>P\<close> and \<open>V\<close>, named by the line of
  \<^verbatim>\<open>synch.c\<close> that the thread executes next. One statement is one atomic step.
  \<open>P_asleep\<close>: switched out inside \<open>wchan_sleep\<close> (line 116); \<open>P_woken\<close>: made
  runnable again, about to reacquire the guard before \<open>wchan_sleep\<close> returns.
\<close>

datatype sem_pc =
    SemIdle
  | P91 ptr | P99 | P102 | P103 | P116 | P_asleep | P_woken | P118 | P119 | P120
  | V126 ptr | V128 | V130 | V131 | V132 | V134

text \<open>
  The system of one semaphore and the threads that use it. \<open>spc\<close> is the program
  point of each thread, \<open>s_in_interrupt\<close> is \<^verbatim>\<open>curthread->t_in_interrupt\<close>,
  \<open>s_panicked\<close> is set by a failed \<^verbatim>\<open>KASSERT\<close> (the kernel halts).
  \<open>completed_P\<close> and \<open>completed_V\<close> are history variables: they count the calls
  that have returned and are never read by the code.
\<close>

record sem_sys =
  sem :: "(string, wchan) semaphore"
  spc :: "tid \<Rightarrow> sem_pc"
  s_in_interrupt :: "tid \<Rightarrow> bool"
  s_panicked :: bool
  completed_P :: nat
  completed_V :: nat

definition sem_goto :: "tid \<Rightarrow> sem_pc \<Rightarrow> sem_sys \<Rightarrow> sem_sys" where
  "sem_goto t p s = s\<lparr>spc := (spc s)(t := p)\<rparr>"

definition sem_panic :: "sem_sys \<Rightarrow> sem_sys" where
  "sem_panic s = s\<lparr>s_panicked := True\<rparr>"

text \<open>Threads taken off the wait-channel become runnable at \<open>P_woken\<close>.\<close>

fun sem_wake :: "tid list \<Rightarrow> (tid \<Rightarrow> sem_pc) \<Rightarrow> (tid \<Rightarrow> sem_pc)" where
  "sem_wake [] f = f"
| "sem_wake (w # ws) f = sem_wake ws (f(w := P_woken))"

text \<open>The guard: \<open>spinlock_acquire\<close> either takes the guard and continues at \<open>p\<close>, or spins.\<close>

definition acquire_sem_lock :: "tid \<Rightarrow> sem_pc \<Rightarrow> sem_sys \<Rightarrow> sem_sys" where
  "acquire_sem_lock t p s =
    (case spinlock_acquire t (sem_lock (sem s)) of
       None \<Rightarrow> s
     | Some l \<Rightarrow> sem_goto t p (s\<lparr>sem := (sem s)\<lparr>sem_lock := l\<rparr>\<rparr>))"

text \<open>
  The statement at program point \<open>p\<close>, executed by thread \<open>t\<close>. A thread that is idle,
  asleep or spinning does not move.
\<close>

fun sem_exec :: "sem_pc \<Rightarrow> tid \<Rightarrow> sem_sys \<Rightarrow> sem_sys" where
  "sem_exec SemIdle t s = s"
\<comment> \<open>\<open>P\<close>, lines 88-121\<close>
| "sem_exec (P91 p) t s = (if p = NULL then sem_panic s else sem_goto t P99 s)"
| "sem_exec P99 t s =
    (if s_in_interrupt s t = False then sem_goto t P102 s else sem_panic s)"
| "sem_exec P102 t s = acquire_sem_lock t P103 s"
| "sem_exec P103 t s =
    (if sem_count (sem s) = 0 then sem_goto t P116 s else sem_goto t P118 s)"
| "sem_exec P116 t s =
    sem_goto t P_asleep
      (s\<lparr>sem := (sem s)\<lparr>sem_wchan := wchan_sleep t (sem_wchan (sem s)),
                          sem_lock := spinlock_release (sem_lock (sem s))\<rparr>\<rparr>)"
| "sem_exec P_asleep t s = s"
| "sem_exec P_woken t s = acquire_sem_lock t P103 s"
| "sem_exec P118 t s = (if sem_count (sem s) > 0 then sem_goto t P119 s else sem_panic s)"
| "sem_exec P119 t s =
    sem_goto t P120 (s\<lparr>sem := (sem s)\<lparr>sem_count := sem_count (sem s) - 1\<rparr>\<rparr>)"
| "sem_exec P120 t s =
    sem_goto t SemIdle
      (s\<lparr>sem := (sem s)\<lparr>sem_lock := spinlock_release (sem_lock (sem s))\<rparr>,
         completed_P := Suc (completed_P s)\<rparr>)"
\<comment> \<open>\<open>V\<close>, lines 123-135\<close>
| "sem_exec (V126 p) t s = (if p = NULL then sem_panic s else sem_goto t V128 s)"
| "sem_exec V128 t s = acquire_sem_lock t V130 s"
| "sem_exec V130 t s =
    sem_goto t V131 (s\<lparr>sem := (sem s)\<lparr>sem_count := sem_count (sem s) + 1\<rparr>\<rparr>)"
| "sem_exec V131 t s = (if sem_count (sem s) > 0 then sem_goto t V132 s else sem_panic s)"
| "sem_exec V132 t s =
    (case wchan_wakeone (sem_wchan (sem s)) of
       (ws, rest) \<Rightarrow>
         sem_goto t V134 (s\<lparr>sem := (sem s)\<lparr>sem_wchan := rest\<rparr>, spc := sem_wake ws (spc s)\<rparr>))"
| "sem_exec V134 t s =
    sem_goto t SemIdle
      (s\<lparr>sem := (sem s)\<lparr>sem_lock := spinlock_release (sem_lock (sem s))\<rparr>,
         completed_V := Suc (completed_V s)\<rparr>)"

definition sem_step :: "tid \<Rightarrow> sem_sys \<Rightarrow> sem_sys" where
  "sem_step t s = sem_exec (spc s t) t s"

text \<open>
  What can happen to the system: an idle thread calls \<open>P\<close> or \<open>V\<close> with some
  pointer, a thread executes its next statement, or a thread enters or leaves interrupt
  context. Nothing happens after a panic.
\<close>

datatype sem_op = OpP ptr | OpV ptr

datatype sem_event = SCall tid sem_op | SStep tid | SIrq tid bool

definition sem_call :: "tid \<Rightarrow> sem_op \<Rightarrow> sem_sys \<Rightarrow> sem_sys" where
  "sem_call t c s =
    (if spc s t = SemIdle
     then (case c of OpP p \<Rightarrow> sem_goto t (P91 p) s | OpV p \<Rightarrow> sem_goto t (V126 p) s)
     else s)"

definition sem_fire :: "sem_event \<Rightarrow> sem_sys \<Rightarrow> sem_sys" where
  "sem_fire e s =
    (if s_panicked s then s
     else (case e of
             SCall t c \<Rightarrow> sem_call t c s
           | SStep t \<Rightarrow> sem_step t s
           | SIrq t b \<Rightarrow> s\<lparr>s_in_interrupt := (s_in_interrupt s)(t := b)\<rparr>))"

fun sem_run :: "sem_event list \<Rightarrow> sem_sys \<Rightarrow> sem_sys" where
  "sem_run [] s = s"
| "sem_run (e # es) s = sem_run es (sem_fire e s)"

text \<open>The system right after a successful \<open>sem_create(name, initial_count)\<close>.\<close>

definition sem_boot :: "string \<Rightarrow> 32 word \<Rightarrow> sem_sys" where
  "sem_boot name initial_count =
    \<lparr>sem = \<lparr>sem_name = name, sem_wchan = [], sem_lock = spinlock_init,
             sem_count = initial_count\<rparr>,
     spc = (\<lambda>t. SemIdle), s_in_interrupt = (\<lambda>t. False), s_panicked = False,
     completed_P = 0, completed_V = 0\<rparr>"

subsection \<open>Invariants of the semaphore system\<close>

text \<open>Program points at which the thread holds \<open>sem_lock\<close>.\<close>

fun sem_guarded :: "sem_pc \<Rightarrow> bool" where
  "sem_guarded P103 = True"
| "sem_guarded P116 = True"
| "sem_guarded P118 = True"
| "sem_guarded P119 = True"
| "sem_guarded P120 = True"
| "sem_guarded V130 = True"
| "sem_guarded V131 = True"
| "sem_guarded V132 = True"
| "sem_guarded V134 = True"
| "sem_guarded _ = False"

text \<open>The guard is held by exactly the thread that stands at such a program point.\<close>

definition sem_guard_inv :: "sem_sys \<Rightarrow> bool" where
  "sem_guard_inv s = (\<forall>t. (sem_lock (sem s) = Some t) = sem_guarded (spc s t))"

text \<open>The wait-channel holds exactly the threads asleep in \<open>P\<close>, each once.\<close>

definition sem_sleep_inv :: "sem_sys \<Rightarrow> bool" where
  "sem_sleep_inv s =
    (distinct (sem_wchan (sem s)) \<and> (\<forall>t. (t \<in> set (sem_wchan (sem s))) = (spc s t = P_asleep)))"

text \<open>
  The count with the update in flight taken back: after the decrement of line 119 and
  before \<open>P\<close> returns the count is one less than the completed calls account for,
  after the increment of line 130 and before \<open>V\<close> returns it is one more.
\<close>

fun sem_adjust :: "sem_pc \<Rightarrow> 32 word \<Rightarrow> 32 word" where
  "sem_adjust P120 c = c + 1"
| "sem_adjust V131 c = c - 1"
| "sem_adjust V132 c = c - 1"
| "sem_adjust V134 c = c - 1"
| "sem_adjust _ c = c"

definition sem_settled :: "sem_sys \<Rightarrow> 32 word" where
  "sem_settled s =
    (case sem_lock (sem s) of
       None \<Rightarrow> sem_count (sem s)
     | Some h \<Rightarrow> sem_adjust (spc s h) (sem_count (sem s)))"

text \<open>What a thread at a program point knows about the count.\<close>

fun sem_positive :: "sem_pc \<Rightarrow> 32 word \<Rightarrow> bool" where
  "sem_positive P119 c = (c \<noteq> 0)"
| "sem_positive P120 c = (c + 1 \<noteq> 0)"
| "sem_positive V132 c = (c \<noteq> 0)"
| "sem_positive V134 c = (c \<noteq> 0)"
| "sem_positive _ c = True"

text \<open>
  The settled count is the initial count plus the completed \<open>V\<close> calls minus the
  completed \<open>P\<close> calls, as natural numbers.
\<close>

definition sem_count_inv :: "32 word \<Rightarrow> sem_sys \<Rightarrow> bool" where
  "sem_count_inv n s =
    (unat (sem_settled s) + completed_P s = unat n + completed_V s \<and>
     (\<forall>t. sem_positive (spc s t) (sem_count (sem s))))"

definition sem_inv :: "32 word \<Rightarrow> sem_sys \<Rightarrow> bool" where
  "sem_inv n s = (sem_guard_inv s \<and> sem_sleep_inv s \<and> sem_count_inv n s)"

subsection \<open>The statements of one thread among the events of the others\<close>

text \<open>
  Events that the surroundings of thread \<open>t\<close> contribute between two statements of
  \<open>t\<close>: none of them is a statement of \<open>t\<close>, and fired from \<open>s\<close> they do not halt
  the kernel (a halted kernel stays halted, so the flag is the same before and after).
\<close>

definition sem_aside :: "tid \<Rightarrow> sem_event list \<Rightarrow> sem_sys \<Rightarrow> bool" where
  "sem_aside t es s = (SStep t \<notin> set es \<and> s_panicked (sem_run es s) = s_panicked s)"

text \<open>
  \<open>sem_turns t [es1, ..., esk] s\<close>: thread \<open>t\<close> executes its next statement, then the
  events \<open>es1\<close> happen, then \<open>t\<close> executes its next statement, and so on for \<open>k\<close>
  statements of \<open>t\<close>. \<open>sem_asides\<close> says that each \<open>esi\<close> is \<open>sem_aside\<close> where it is
  fired.
\<close>

fun sem_turns :: "tid \<Rightarrow> sem_event list list \<Rightarrow> sem_sys \<Rightarrow> sem_sys" where
  "sem_turns t [] s = s"
| "sem_turns t (es # ess) s = sem_turns t ess (sem_run es (sem_fire (SStep t) s))"

fun sem_asides :: "tid \<Rightarrow> sem_event list list \<Rightarrow> sem_sys \<Rightarrow> bool" where
  "sem_asides t [] s = True"
| "sem_asides t (es # ess) s =
    (sem_aside t es (sem_fire (SStep t) s) \<and>
     sem_asides t ess (sem_run es (sem_fire (SStep t) s)))"

subsection \<open>Sample runs of the semaphore system\<close>

text \<open>Thread 0 calls \<open>P\<close> and runs up to the decrement of line 119.\<close>

definition run_P_line119 :: "sem_event list" where
  "run_P_line119 = [SCall 0 (OpP PTR), SStep 0, SStep 0, SStep 0, SStep 0, SStep 0]"

text \<open>Thread 0 calls \<open>P\<close> and runs up to the loop test of line 103.\<close>

definition run_P_line103 :: "sem_event list" where
  "run_P_line103 = [SCall 0 (OpP PTR), SStep 0, SStep 0, SStep 0]"

text \<open>Two more statements: on a semaphore of count 0, thread 0 is asleep in \<open>P\<close>.\<close>

definition run_P_asleep :: "sem_event list" where
  "run_P_asleep = run_P_line103 @ [SStep 0, SStep 0]"

text \<open>Thread 1 then calls \<open>V\<close> and runs up to line 134: it has woken thread 0 and holds the guard.\<close>

definition run_P_woken :: "sem_event list" where
  "run_P_woken =
    run_P_asleep @ [SCall 1 (OpV PTR), SStep 1, SStep 1, SStep 1, SStep 1, SStep 1]"

text \<open>
  Thread 0 enters interrupt context, calls \<open>P\<close> on a semaphore and executes two
  statements (lines 91 and 99).
\<close>

definition run_P_in_interrupt :: "sem_event list" where
  "run_P_in_interrupt = [SIrq 0 True, SCall 0 (OpP PTR), SStep 0, SStep 0]"

section \<open>Lock and condition variable\<close>

text \<open>
  \<^verbatim>\<open>struct lock\<close> and \<^verbatim>\<open>struct cv\<close>. \<open>curr_user\<close> is a thread pointer:
  \<open>None\<close> is \<open>NULL\<close>.
\<close>

record ('n, 'w) lock =
  lk_name :: 'n
  lock_wchan :: 'w
  lock_lock :: spinlock
  free :: bool
  curr_user :: "tid option"

record ('n, 'w) cv =
  cv_name :: 'n
  control_wchan :: 'w
  control_spinlock :: spinlock

text \<open>
  \<open>lock_do_i_hold\<close> (lines 233-248) for the calling thread \<open>cur\<close>, on a lock that
  passed its \<^verbatim>\<open>KASSERT(lock != NULL)\<close>.
\<close>

definition lock_do_i_hold :: "('n, 'w) lock \<Rightarrow> tid \<Rightarrow> bool" where
  "lock_do_i_hold lock cur =
    (if free lock = True then False
     else if curr_user lock = Some cur then True
     else False)"

text \<open>
  \<open>lock_release\<close> and \<open>lock_acquire\<close> are called by a client thread and by
  \<open>cv_wait\<close> (lines 310 and 314); the caller is part of the program point, it says
  where the thread continues when the function returns.
\<close>

datatype caller = Client | CvWait

text \<open>
  Program points, named by the line of \<^verbatim>\<open>synch.c\<close> executed next: \<open>A\<close> for
  \<open>lock_acquire\<close>, \<open>R\<close> for \<open>lock_release\<close>, \<open>D\<close> for \<open>lock_do_i_hold\<close>,
  \<open>W\<close> for \<open>cv_wait\<close>, \<open>S\<close> for \<open>cv_signal\<close>, \<open>B\<close> for \<open>cv_broadcast\<close>.
  \<open>A_asleep\<close> and \<open>W_asleep\<close>: switched out inside \<open>wchan_sleep\<close> (lines 208
  and 312); \<open>A_woken\<close> and \<open>W_woken\<close>: runnable again, about to reacquire the guard
  before \<open>wchan_sleep\<close> returns. The calls of lines 310 and 314 continue at the first
  statement of the callee.
\<close>

datatype mon_pc =
    MonIdle
  | A200 ptr caller | A201 caller | A203 caller | A205 caller | A208 caller
  | A_asleep caller | A_woken caller | A212 caller | A213 caller | A214 caller
  | R223 ptr caller | R224 caller | R225 caller | R226 caller | R227 caller
  | R228 caller | R229 caller
  | D236 ptr | D238
  | W300 ptr ptr | W301 ptr | W302 | W308 | W312 | W_asleep | W_woken | W313
  | S323 ptr ptr | S324 ptr | S325 | S327 | S329 | S331
  | B340 ptr ptr | B341 ptr | B342 | B346 | B348 | B350

text \<open>
  The system of one lock, one condition variable and the threads that use them.
  \<open>m_retval\<close> holds what \<open>lock_do_i_hold\<close> last returned to each thread.
\<close>

record mon_sys =
  lk :: "(string, wchan) lock"
  cond :: "(string, wchan) cv"
  mpc :: "tid \<Rightarrow> mon_pc"
  m_in_interrupt :: "tid \<Rightarrow> bool"
  m_panicked :: bool
  m_retval :: "tid \<Rightarrow> bool"

definition mon_goto :: "tid \<Rightarrow> mon_pc \<Rightarrow> mon_sys \<Rightarrow> mon_sys" where
  "mon_goto t p s = s\<lparr>mpc := (mpc s)(t := p)\<rparr>"

definition mon_panic :: "mon_sys \<Rightarrow> mon_sys" where
  "mon_panic s = s\<lparr>m_panicked := True\<rparr>"

text \<open>A thread taken off a wait-channel becomes runnable inside its \<open>wchan_sleep\<close>.\<close>

fun woken_pc :: "mon_pc \<Rightarrow> mon_pc" where
  "woken_pc (A_asleep c) = A_woken c"
| "woken_pc W_asleep = W_woken"
| "woken_pc p = p"

fun mon_wake :: "tid list \<Rightarrow> (tid \<Rightarrow> mon_pc) \<Rightarrow> (tid \<Rightarrow> mon_pc)" where
  "mon_wake [] f = f"
| "mon_wake (w # ws) f = mon_wake ws (f(w := woken_pc (f w)))"

text \<open>The guards: \<open>spinlock_acquire\<close> either takes the guard and continues at \<open>p\<close>, or spins.\<close>

definition acquire_lock_lock :: "tid \<Rightarrow> mon_pc \<Rightarrow> mon_sys \<Rightarrow> mon_sys" where
  "acquire_lock_lock t p s =
    (case spinlock_acquire t (lock_lock (lk s)) of
       None \<Rightarrow> s
     | Some l \<Rightarrow> mon_goto t p (s\<lparr>lk := (lk s)\<lparr>lock_lock := l\<rparr>\<rparr>))"

definition acquire_control_spinlock :: "tid \<Rightarrow> mon_pc \<Rightarrow> mon_sys \<Rightarrow> mon_sys" where
  "acquire_control_spinlock t p s =
    (case spinlock_acquire t (control_spinlock (cond s)) of
       None \<Rightarrow> s
     | Some l \<Rightarrow> mon_goto t p (s\<lparr>cond := (cond s)\<lparr>control_spinlock := l\<rparr>\<rparr>))"

text \<open>The statement at program point \<open>p\<close>, executed by thread \<open>t\<close>.\<close>

fun mon_exec :: "mon_pc \<Rightarrow> tid \<Rightarrow> mon_sys \<Rightarrow> mon_sys" where
  "mon_exec MonIdle t s = s"
\<comment> \<open>\<open>lock_acquire\<close>, lines 195-216\<close>
| "mon_exec (A200 p c) t s = (if p = NULL then mon_panic s else mon_goto t (A201 c) s)"
| "mon_exec (A201 c) t s =
    (if m_in_interrupt s t = False then mon_goto t (A203 c) s else mon_panic s)"
| "mon_exec (A203 c) t s = acquire_lock_lock t (A205 c) s"
| "mon_exec (A205 c) t s =
    (if free (lk s) = False then mon_goto t (A208 c) s else mon_goto t (A212 c) s)"
| "mon_exec (A208 c) t s =
    mon_goto t (A_asleep c)
      (s\<lparr>lk := (lk s)\<lparr>lock_wchan := wchan_sleep t (lock_wchan (lk s)),
                        lock_lock := spinlock_release (lock_lock (lk s))\<rparr>\<rparr>)"
| "mon_exec (A_asleep c) t s = s"
| "mon_exec (A_woken c) t s = acquire_lock_lock t (A205 c) s"
| "mon_exec (A212 c) t s = mon_goto t (A213 c) (s\<lparr>lk := (lk s)\<lparr>curr_user := Some t\<rparr>\<rparr>)"
| "mon_exec (A213 c) t s = mon_goto t (A214 c) (s\<lparr>lk := (lk s)\<lparr>free := False\<rparr>\<rparr>)"
| "mon_exec (A214 c) t s =
    mon_goto t MonIdle (s\<lparr>lk := (lk s)\<lparr>lock_lock := spinlock_release (lock_lock (lk s))\<rparr>\<rparr>)"
\<comment> \<open>\<open>lock_release\<close>, lines 218-231\<close>
| "mon_exec (R223 p c) t s = (if p = NULL then mon_panic s else mon_goto t (R224 c) s)"
| "mon_exec (R224 c) t s =
    (if lock_do_i_hold (lk s) t then mon_goto t (R225 c) s else mon_panic s)"
| "mon_exec (R225 c) t s = acquire_lock_lock t (R226 c) s"
| "mon_exec (R226 c) t s = mon_goto t (R227 c) (s\<lparr>lk := (lk s)\<lparr>curr_user := None\<rparr>\<rparr>)"
| "mon_exec (R227 c) t s = mon_goto t (R228 c) (s\<lparr>lk := (lk s)\<lparr>free := True\<rparr>\<rparr>)"
| "mon_exec (R228 c) t s =
    (case wchan_wakeone (lock_wchan (lk s)) of
       (ws, rest) \<Rightarrow>
         mon_goto t (R229 c) (s\<lparr>lk := (lk s)\<lparr>lock_wchan := rest\<rparr>, mpc := mon_wake ws (mpc s)\<rparr>))"
| "mon_exec (R229 c) t s =
    mon_goto t (case c of Client \<Rightarrow> MonIdle | CvWait \<Rightarrow> W312)
      (s\<lparr>lk := (lk s)\<lparr>lock_lock := spinlock_release (lock_lock (lk s))\<rparr>\<rparr>)"
\<comment> \<open>\<open>lock_do_i_hold\<close>, lines 233-248\<close>
| "mon_exec (D236 p) t s = (if p = NULL then mon_panic s else mon_goto t D238 s)"
| "mon_exec D238 t s =
    mon_goto t MonIdle (s\<lparr>m_retval := (m_retval s)(t := lock_do_i_hold (lk s) t)\<rparr>)"
\<comment> \<open>\<open>cv_wait\<close>, lines 297-318\<close>
| "mon_exec (W300 cp lp) t s = (if cp = NULL then mon_panic s else mon_goto t (W301 lp) s)"
| "mon_exec (W301 lp) t s = (if lp = NULL then mon_panic s else mon_goto t W302 s)"
| "mon_exec W302 t s =
    (if lock_do_i_hold (lk s) t = True then mon_goto t W308 s else mon_panic s)"
| "mon_exec W308 t s = acquire_control_spinlock t (R223 PTR CvWait) s"
| "mon_exec W312 t s =
    mon_goto t W_asleep
      (s\<lparr>cond := (cond s)\<lparr>control_wchan := wchan_sleep t (control_wchan (cond s)),
                            control_spinlock := spinlock_release (control_spinlock (cond s))\<rparr>\<rparr>)"
| "mon_exec W_asleep t s = s"
| "mon_exec W_woken t s = acquire_control_spinlock t W313 s"
| "mon_exec W313 t s =
    mon_goto t (A200 PTR CvWait)
      (s\<lparr>cond := (cond s)\<lparr>control_spinlock := spinlock_release (control_spinlock (cond s))\<rparr>\<rparr>)"
\<comment> \<open>\<open>cv_signal\<close>, lines 320-335\<close>
| "mon_exec (S323 cp lp) t s = (if cp = NULL then mon_panic s else mon_goto t (S324 lp) s)"
| "mon_exec (S324 lp) t s = (if lp = NULL then mon_panic s else mon_goto t S325 s)"
| "mon_exec S325 t s =
    (if lock_do_i_hold (lk s) t = True then mon_goto t S327 s else mon_panic s)"
| "mon_exec S327 t s = acquire_control_spinlock t S329 s"
| "mon_exec S329 t s =
    (case wchan_wakeone (control_wchan (cond s)) of
       (ws, rest) \<Rightarrow>
         mon_goto t S331
           (s\<lparr>cond := (cond s)\<lparr>control_wchan := rest\<rparr>, mpc := mon_wake ws (mpc s)\<rparr>))"
| "mon_exec S331 t s =
    mon_goto t MonIdle
      (s\<lparr>cond := (cond s)\<lparr>control_spinlock := spinlock_release (control_spinlock (cond s))\<rparr>\<rparr>)"
\<comment> \<open>\<open>cv_broadcast\<close>, lines 337-354\<close>
| "mon_exec (B340 cp lp) t s = (if cp = NULL then mon_panic s else mon_goto t (B341 lp) s)"
| "mon_exec (B341 lp) t s = (if lp = NULL then mon_panic s else mon_goto t B342 s)"
| "mon_exec B342 t s =
    (if lock_do_i_hold (lk s) t = True then mon_goto t B346 s else mon_panic s)"
| "mon_exec B346 t s = acquire_control_spinlock t B348 s"
| "mon_exec B348 t s =
    (case wchan_wakeall (control_wchan (cond s)) of
       (ws, rest) \<Rightarrow>
         mon_goto t B350
           (s\<lparr>cond := (cond s)\<lparr>control_wchan := rest\<rparr>, mpc := mon_wake ws (mpc s)\<rparr>))"
| "mon_exec B350 t s =
    mon_goto t MonIdle
      (s\<lparr>cond := (cond s)\<lparr>control_spinlock := spinlock_release (control_spinlock (cond s))\<rparr>\<rparr>)"

definition mon_step :: "tid \<Rightarrow> mon_sys \<Rightarrow> mon_sys" where
  "mon_step t s = mon_exec (mpc s t) t s"

text \<open>
  Events: an idle thread calls an operation with some pointers, a thread executes its
  next statement, a thread enters or leaves interrupt context. Nothing happens after a
  panic.
\<close>

datatype mon_op =
    OpAcquire ptr | OpRelease ptr | OpDoIHold ptr
  | OpWait ptr ptr | OpSignal ptr ptr | OpBroadcast ptr ptr

datatype mon_event = MCall tid mon_op | MStep tid | MIrq tid bool

fun mon_entry :: "mon_op \<Rightarrow> mon_pc" where
  "mon_entry (OpAcquire p) = A200 p Client"
| "mon_entry (OpRelease p) = R223 p Client"
| "mon_entry (OpDoIHold p) = D236 p"
| "mon_entry (OpWait cp lp) = W300 cp lp"
| "mon_entry (OpSignal cp lp) = S323 cp lp"
| "mon_entry (OpBroadcast cp lp) = B340 cp lp"

definition mon_call :: "tid \<Rightarrow> mon_op \<Rightarrow> mon_sys \<Rightarrow> mon_sys" where
  "mon_call t c s = (if mpc s t = MonIdle then mon_goto t (mon_entry c) s else s)"

definition mon_fire :: "mon_event \<Rightarrow> mon_sys \<Rightarrow> mon_sys" where
  "mon_fire e s =
    (if m_panicked s then s
     else (case e of
             MCall t c \<Rightarrow> mon_call t c s
           | MStep t \<Rightarrow> mon_step t s
           | MIrq t b \<Rightarrow> s\<lparr>m_in_interrupt := (m_in_interrupt s)(t := b)\<rparr>))"

fun mon_run :: "mon_event list \<Rightarrow> mon_sys \<Rightarrow> mon_sys" where
  "mon_run [] s = s"
| "mon_run (e # es) s = mon_run es (mon_fire e s)"

text \<open>The system right after successful \<open>lock_create\<close> and \<open>cv_create\<close>.\<close>

definition mon_boot :: "string \<Rightarrow> string \<Rightarrow> mon_sys" where
  "mon_boot lname cname =
    \<lparr>lk = \<lparr>lk_name = lname, lock_wchan = [], lock_lock = spinlock_init,
            free = True, curr_user = None\<rparr>,
     cond = \<lparr>cv_name = cname, control_wchan = [], control_spinlock = spinlock_init\<rparr>,
     mpc = (\<lambda>t. MonIdle), m_in_interrupt = (\<lambda>t. False), m_panicked = False,
     m_retval = (\<lambda>t. False)\<rparr>"

subsection \<open>Invariants of the lock and condition variable system\<close>

text \<open>Program points at which the thread holds \<open>lock_lock\<close>, and \<open>control_spinlock\<close>.\<close>

fun lk_guarded :: "mon_pc \<Rightarrow> bool" where
  "lk_guarded (A205 c) = True"
| "lk_guarded (A208 c) = True"
| "lk_guarded (A212 c) = True"
| "lk_guarded (A213 c) = True"
| "lk_guarded (A214 c) = True"
| "lk_guarded (R226 c) = True"
| "lk_guarded (R227 c) = True"
| "lk_guarded (R228 c) = True"
| "lk_guarded (R229 c) = True"
| "lk_guarded _ = False"

fun cv_guarded :: "mon_pc \<Rightarrow> bool" where
  "cv_guarded (R223 p CvWait) = True"
| "cv_guarded (R224 CvWait) = True"
| "cv_guarded (R225 CvWait) = True"
| "cv_guarded (R226 CvWait) = True"
| "cv_guarded (R227 CvWait) = True"
| "cv_guarded (R228 CvWait) = True"
| "cv_guarded (R229 CvWait) = True"
| "cv_guarded W312 = True"
| "cv_guarded W313 = True"
| "cv_guarded S329 = True"
| "cv_guarded S331 = True"
| "cv_guarded B348 = True"
| "cv_guarded B350 = True"
| "cv_guarded _ = False"

text \<open>
  What a thread at a program point knows about \<open>free\<close> and \<open>curr_user\<close>:
  nothing, that it owns the lock, that the lock is free (line 212), that it has written
  itself as the user of a lock still marked free (line 213), that it has cleared the
  user of a lock still marked held (line 227), that the lock is free and ownerless under
  its guard (lines 228, 229).
\<close>

datatype lk_view = Any | Owner | SeenFree | Claiming | Dropping | Released

fun lk_view_of :: "mon_pc \<Rightarrow> lk_view" where
  "lk_view_of (A212 c) = SeenFree"
| "lk_view_of (A213 c) = Claiming"
| "lk_view_of (A214 c) = Owner"
| "lk_view_of (R225 c) = Owner"
| "lk_view_of (R226 c) = Owner"
| "lk_view_of (R227 c) = Dropping"
| "lk_view_of (R228 c) = Released"
| "lk_view_of (R229 c) = Released"
| "lk_view_of W308 = Owner"
| "lk_view_of (R223 p CvWait) = Owner"
| "lk_view_of (R224 CvWait) = Owner"
| "lk_view_of _ = Any"

fun lk_sees :: "lk_view \<Rightarrow> tid \<Rightarrow> ('n, 'w) lock \<Rightarrow> bool" where
  "lk_sees Any t l = True"
| "lk_sees Owner t l = (free l = False \<and> curr_user l = Some t)"
| "lk_sees SeenFree t l = (free l = True)"
| "lk_sees Claiming t l = (free l = True \<and> curr_user l = Some t)"
| "lk_sees Dropping t l = (free l = False \<and> curr_user l = None)"
| "lk_sees Released t l = (free l = True \<and> curr_user l = None)"

text \<open>Between the two assignments of lines 212-213 and of lines 226-227.\<close>

fun lk_midway :: "mon_pc \<Rightarrow> bool" where
  "lk_midway (A213 c) = True"
| "lk_midway (R227 c) = True"
| "lk_midway _ = False"

text \<open>Asleep inside the \<open>wchan_sleep\<close> of \<open>lock_acquire\<close>.\<close>

fun is_A_asleep :: "mon_pc \<Rightarrow> bool" where
  "is_A_asleep (A_asleep c) = True"
| "is_A_asleep _ = False"

text \<open>
  Each guard is held by exactly the thread that stands at a program point under it;
  every thread sees the fields of the lock as its program point says, and \<open>free\<close>
  agrees with \<open>curr_user = NULL\<close> unless some thread stands between two assignments;
  each wait-channel holds exactly the threads asleep on it, each once.
\<close>

definition mon_lock_inv :: "mon_sys \<Rightarrow> bool" where
  "mon_lock_inv s = (\<forall>t. (lock_lock (lk s) = Some t) = lk_guarded (mpc s t))"

definition mon_cv_inv :: "mon_sys \<Rightarrow> bool" where
  "mon_cv_inv s = (\<forall>t. (control_spinlock (cond s) = Some t) = cv_guarded (mpc s t))"

definition mon_field_inv :: "mon_sys \<Rightarrow> bool" where
  "mon_field_inv s =
    ((\<forall>t. lk_sees (lk_view_of (mpc s t)) t (lk s)) \<and>
     ((\<exists>t. lk_midway (mpc s t)) \<or> (free (lk s) = (curr_user (lk s) = None))))"

definition mon_sleep_inv :: "mon_sys \<Rightarrow> bool" where
  "mon_sleep_inv s =
    (distinct (lock_wchan (lk s)) \<and>
     (\<forall>t. (t \<in> set (lock_wchan (lk s))) = is_A_asleep (mpc s t)) \<and>
     distinct (control_wchan (cond s)) \<and>
     (\<forall>t. (t \<in> set (control_wchan (cond s))) = (mpc s t = W_asleep)))"

definition mon_inv :: "mon_sys \<Rightarrow> bool" where
  "mon_inv s = (mon_lock_inv s \<and> mon_cv_inv s \<and> mon_field_inv s \<and> mon_sleep_inv s)"

text \<open>
  The calls of lines 310 and 314 pass the non-null lock of \<open>cv_wait\<close>; the program
  points of a thread inside \<open>cv_wait\<close>, those of the two callees included.
\<close>

fun pc_wf :: "mon_pc \<Rightarrow> bool" where
  "pc_wf (R223 p CvWait) = (p = PTR)"
| "pc_wf (A200 p CvWait) = (p = PTR)"
| "pc_wf _ = True"

definition mon_pc_inv :: "mon_sys \<Rightarrow> bool" where
  "mon_pc_inv s = (\<forall>t. pc_wf (mpc s t))"

fun in_cv_wait :: "mon_pc \<Rightarrow> bool" where
  "in_cv_wait (W300 cp lp) = True"
| "in_cv_wait (W301 lp) = True"
| "in_cv_wait W302 = True"
| "in_cv_wait W308 = True"
| "in_cv_wait W312 = True"
| "in_cv_wait W_asleep = True"
| "in_cv_wait W_woken = True"
| "in_cv_wait W313 = True"
| "in_cv_wait (R223 p CvWait) = True"
| "in_cv_wait (R224 CvWait) = True"
| "in_cv_wait (R225 CvWait) = True"
| "in_cv_wait (R226 CvWait) = True"
| "in_cv_wait (R227 CvWait) = True"
| "in_cv_wait (R228 CvWait) = True"
| "in_cv_wait (R229 CvWait) = True"
| "in_cv_wait (A200 p CvWait) = True"
| "in_cv_wait (A201 CvWait) = True"
| "in_cv_wait (A203 CvWait) = True"
| "in_cv_wait (A205 CvWait) = True"
| "in_cv_wait (A208 CvWait) = True"
| "in_cv_wait (A_asleep CvWait) = True"
| "in_cv_wait (A_woken CvWait) = True"
| "in_cv_wait (A212 CvWait) = True"
| "in_cv_wait (A213 CvWait) = True"
| "in_cv_wait (A214 CvWait) = True"
| "in_cv_wait _ = False"

text \<open>Inside a client's \<open>lock_acquire\<close>, before line 212.\<close>

fun acquire_waiting :: "mon_pc \<Rightarrow> bool" where
  "acquire_waiting (A200 p Client) = True"
| "acquire_waiting (A201 Client) = True"
| "acquire_waiting (A203 Client) = True"
| "acquire_waiting (A205 Client) = True"
| "acquire_waiting (A208 Client) = True"
| "acquire_waiting (A_asleep Client) = True"
| "acquire_waiting (A_woken Client) = True"
| "acquire_waiting _ = False"

subsection \<open>The statements of one thread among the events of the others\<close>

text \<open>
  As for the semaphore: \<open>mon_aside t es s\<close> says that the events \<open>es\<close> contain no
  statement of thread \<open>t\<close> and, fired from \<open>s\<close>, do not halt the kernel;
  \<open>mon_turns t [es1, ..., esk] s\<close> lets \<open>t\<close> execute \<open>k\<close> statements, the events
  \<open>esi\<close> happening after the \<open>i\<close>-th; \<open>mon_asides\<close> says that each \<open>esi\<close> is
  \<open>mon_aside\<close> where it is fired.
\<close>

definition mon_aside :: "tid \<Rightarrow> mon_event list \<Rightarrow> mon_sys \<Rightarrow> bool" where
  "mon_aside t es s = (MStep t \<notin> set es \<and> m_panicked (mon_run es s) = m_panicked s)"

fun mon_turns :: "tid \<Rightarrow> mon_event list list \<Rightarrow> mon_sys \<Rightarrow> mon_sys" where
  "mon_turns t [] s = s"
| "mon_turns t (es # ess) s = mon_turns t ess (mon_run es (mon_fire (MStep t) s))"

fun mon_asides :: "tid \<Rightarrow> mon_event list list \<Rightarrow> mon_sys \<Rightarrow> bool" where
  "mon_asides t [] s = True"
| "mon_asides t (es # ess) s =
    (mon_aside t es (mon_fire (MStep t) s) \<and>
     mon_asides t ess (mon_run es (mon_fire (MStep t) s)))"

subsection \<open>Sample runs of the lock and condition variable system\<close>

text \<open>Thread 0 calls \<open>lock_acquire\<close> and runs up to line 213, between the two assignments.\<close>

definition run_acquire_midway :: "mon_event list" where
  "run_acquire_midway =
    [MCall 0 (OpAcquire PTR), MStep 0, MStep 0, MStep 0, MStep 0, MStep 0]"

text \<open>Thread 0 completes \<open>lock_acquire\<close>.\<close>

definition run_acquire :: "mon_event list" where
  "run_acquire = run_acquire_midway @ [MStep 0, MStep 0]"

text \<open>Thread 0 acquires the lock, calls \<open>lock_release\<close> and runs up to line 225.\<close>

definition run_release_entry :: "mon_event list" where
  "run_release_entry = run_acquire @ [MCall 0 (OpRelease PTR), MStep 0, MStep 0]"

text \<open>Thread 0 acquires the lock, calls \<open>cv_wait\<close> and runs up to line 302.\<close>

definition run_wait_entry :: "mon_event list" where
  "run_wait_entry = run_acquire @ [MCall 0 (OpWait PTR PTR), MStep 0, MStep 0]"

text \<open>One more statement of thread 0: it is about to take the guard at line 308.\<close>

definition run_wait_line308 :: "mon_event list" where
  "run_wait_line308 = run_wait_entry @ [MStep 0]"

text \<open>Four more: it is inside the \<open>lock_release\<close> of line 310, at line 226.\<close>

definition run_wait_line226 :: "mon_event list" where
  "run_wait_line226 = run_wait_line308 @ [MStep 0, MStep 0, MStep 0, MStep 0]"

text \<open>Five more: it is asleep on the wait-channel of the condition variable.\<close>

definition run_wait_asleep :: "mon_event list" where
  "run_wait_asleep = run_wait_line226 @ [MStep 0, MStep 0, MStep 0, MStep 0, MStep 0]"

text \<open>Thread 1 then acquires the lock, signals the condition variable and releases the lock.\<close>

definition run_wait_signalled :: "mon_event list" where
  "run_wait_signalled =
    run_wait_asleep @
    [MCall 1 (OpAcquire PTR), MStep 1, MStep 1, MStep 1, MStep 1, MStep 1, MStep 1, MStep 1,
     MCall 1 (OpSignal PTR PTR), MStep 1, MStep 1, MStep 1, MStep 1, MStep 1, MStep 1,
     MCall 1 (OpRelease PTR), MStep 1, MStep 1, MStep 1, MStep 1, MStep 1, MStep 1, MStep 1]"

text \<open>
  Thread 0 reacquires the guard, releases it and runs the \<open>lock_acquire\<close> of line 314
  up to the loop test of line 205.
\<close>

definition run_wait_line205 :: "mon_event list" where
  "run_wait_line205 = run_wait_signalled @ [MStep 0, MStep 0, MStep 0, MStep 0, MStep 0]"

text \<open>Three more statements: it is at line 214, about to return.\<close>

definition run_wait_return :: "mon_event list" where
  "run_wait_return = run_wait_line205 @ [MStep 0, MStep 0, MStep 0]"

text \<open>
  Thread 0 acquires the lock, enters interrupt context, calls \<open>cv_wait\<close> and executes
  eleven statements, up to the \<open>wchan_sleep\<close> of line 312.
\<close>

definition run_wait_in_interrupt :: "mon_event list" where
  "run_wait_in_interrupt =
    run_acquire @
    [MIrq 0 True, MCall 0 (OpWait PTR PTR),
     MStep 0, MStep 0, MStep 0, MStep 0, MStep 0, MStep 0,
     MStep 0, MStep 0, MStep 0, MStep 0, MStep 0]"

text \<open>
  Then it falls asleep, thread 1 acquires the lock, signals the condition variable and
  releases the lock, and thread 0 executes three more statements: it reacquires and
  releases the guard of the condition variable and enters the \<open>lock_acquire\<close> of line
  314, up to the assertion of line 201.
\<close>

definition run_wait_in_interrupt_woken :: "mon_event list" where
  "run_wait_in_interrupt_woken =
    run_wait_in_interrupt @ [MStep 0] @
    [MCall 1 (OpAcquire PTR), MStep 1, MStep 1, MStep 1, MStep 1, MStep 1, MStep 1, MStep 1,
     MCall 1 (OpSignal PTR PTR), MStep 1, MStep 1, MStep 1, MStep 1, MStep 1, MStep 1,
     MCall 1 (OpRelease PTR), MStep 1, MStep 1, MStep 1, MStep 1, MStep 1, MStep 1, MStep 1] @
    [MStep 0, MStep 0, MStep 0]"

text \<open>
  Thread 0 is asleep in \<open>cv_wait\<close>; thread 1 acquires the lock, signals the condition
  variable and keeps the lock; thread 0 runs up to the loop test of line 205 and finds
  the lock held.
\<close>

definition run_wait_lock_busy :: "mon_event list" where
  "run_wait_lock_busy =
    run_wait_asleep @
    [MCall 1 (OpAcquire PTR), MStep 1, MStep 1, MStep 1, MStep 1, MStep 1, MStep 1, MStep 1,
     MCall 1 (OpSignal PTR PTR), MStep 1, MStep 1, MStep 1, MStep 1, MStep 1, MStep 1] @
    [MStep 0, MStep 0, MStep 0, MStep 0, MStep 0]"

text \<open>
  Thread 0 acquires the lock, enters interrupt context, calls \<open>lock_acquire\<close> again
  and executes two statements (lines 200 and 201).
\<close>

definition run_acquire_in_interrupt :: "mon_event list" where
  "run_acquire_in_interrupt =
    run_acquire @ [MIrq 0 True, MCall 0 (OpAcquire PTR), MStep 0, MStep 0]"

section \<open>Creation and destruction\<close>

text \<open>
  Kernel memory: the live blocks by address. A semaphore, lock or condition variable in
  memory holds pointers to its name and to its wait-channel.
\<close>

datatype kobj =
    Raw
  | Str string
  | Wchan addr "tid list"
  | SemObj "(addr, addr) semaphore"
  | LockObj "(addr, addr) lock"
  | CvObj "(addr, addr) cv"

text \<open>
  \<open>brk\<close> is the next unused address. \<open>alloc_plan\<close> says, for each coming allocation
  attempt, whether it succeeds; attempts past the end of the plan succeed.
\<close>

record kmem =
  heap :: "addr \<rightharpoonup> kobj"
  brk :: addr
  alloc_plan :: "bool list"

definition kmem_ok :: "kmem \<Rightarrow> bool" where
  "kmem_ok m = (0 < brk m \<and> (\<forall>a. brk m \<le> a \<longrightarrow> heap m a = None))"

text \<open>
  Modelled from the spec: the fallible allocation behind \<open>kmalloc\<close>, \<open>kstrdup\<close> and
  \<open>wchan_create\<close> (none of them in the sources). A failed attempt returns \<open>NULL\<close> and
  allocates nothing; a successful one returns a fresh address holding \<open>v\<close>.
\<close>

definition alloc :: "kobj \<Rightarrow> kmem \<Rightarrow> addr \<times> kmem" where
  "alloc v m =
    (case alloc_plan m of
       [] \<Rightarrow> (brk m, m\<lparr>heap := (heap m)(brk m \<mapsto> v), brk := Suc (brk m)\<rparr>)
     | ok # plan \<Rightarrow>
         (if ok
          then (brk m, m\<lparr>heap := (heap m)(brk m \<mapsto> v), brk := Suc (brk m), alloc_plan := plan\<rparr>)
          else (0, m\<lparr>alloc_plan := plan\<rparr>)))"

text \<open>Modelled from the spec: \<open>kmalloc\<close> (not in the sources), a fallible allocate.\<close>

definition kmalloc :: "kmem \<Rightarrow> addr \<times> kmem" where
  "kmalloc m = alloc Raw m"

text \<open>Modelled from the spec: \<open>kstrdup\<close> (not in the sources), a fallible string-duplicate.\<close>

definition kstrdup :: "string \<Rightarrow> kmem \<Rightarrow> addr \<times> kmem" where
  "kstrdup name m = alloc (Str name) m"

text \<open>
  Modelled from the spec: \<open>wchan_create(name)\<close> (not in the sources) allocates a
  wait-channel with no sleeper, or fails.
\<close>

definition wchan_create :: "addr \<Rightarrow> kmem \<Rightarrow> addr \<times> kmem" where
  "wchan_create name m = alloc (Wchan name []) m"

text \<open>
  Modelled from the spec: \<open>kfree\<close> (not in the sources) frees the block; \<open>kfree(NULL)\<close>
  does nothing.
\<close>

definition kfree :: "addr \<Rightarrow> kmem \<Rightarrow> kmem" where
  "kfree p m = (if p = 0 then m else m\<lparr>heap := (heap m)(p := None)\<rparr>)"

text \<open>
  A \<^verbatim>\<open>void\<close> function returns with the memory it leaves, halts the kernel on a failed
  assertion with the memory as it is at that moment, or is undefined (its pointer does
  not designate an object of the expected kind).
\<close>

datatype outcome = Returned kmem | Halted kmem | Undefined

text \<open>
  Modelled from the spec: \<open>wchan_destroy\<close> (not in the sources) is fatal if any thread
  is currently asleep on the wait-channel, and frees it otherwise.
\<close>

definition wchan_destroy :: "addr \<Rightarrow> kmem \<Rightarrow> outcome" where
  "wchan_destroy wc m =
    (case heap m wc of
       Some (Wchan name []) \<Rightarrow> Returned (kfree wc m)
     | Some (Wchan name (t # ts)) \<Rightarrow> Halted m
     | _ \<Rightarrow> Undefined)"

text \<open>
  Modelled from the spec: \<open>spinlock_cleanup\<close> (not in the sources) leaves memory as it
  is.
\<close>

definition spinlock_cleanup :: "spinlock \<Rightarrow> kmem \<Rightarrow> kmem" where
  "spinlock_cleanup l m = m"

text \<open>\<open>sem_create\<close>, lines 47-74.\<close>

definition sem_create :: "string \<Rightarrow> 32 word \<Rightarrow> kmem \<Rightarrow> addr \<times> kmem" where
  "sem_create name initial_count m =
    (case kmalloc m of
       (semp, m1) \<Rightarrow>
         if semp = 0 then (0, m1)
         else
           (case kstrdup name m1 of
              (name', m2) \<Rightarrow>
                if name' = 0 then (0, kfree semp m2)
                else
                  (case wchan_create name' m2 of
                     (wchan', m3) \<Rightarrow>
                       if wchan' = 0 then (0, kfree semp (kfree name' m3))
                       else
                         (semp,
                          m3\<lparr>heap := (heap m3)(semp \<mapsto>
                                SemObj \<lparr>sem_name = name', sem_wchan = wchan',
                                        sem_lock = spinlock_init,
                                        sem_count = initial_count\<rparr>)\<rparr>))))"

text \<open>
  \<open>lock_create\<close>, lines 141-173. When \<open>wchan_create\<close> fails, line 161 frees
  \<open>lock->lock_wchan\<close>, which is \<open>NULL\<close> there.
\<close>

definition lock_create :: "string \<Rightarrow> kmem \<Rightarrow> addr \<times> kmem" where
  "lock_create name m =
    (case kmalloc m of
       (lock, m1) \<Rightarrow>
         if lock = 0 then (0, m1)
         else
           (case kstrdup name m1 of
              (name', m2) \<Rightarrow>
                if name' = 0 then (0, kfree lock m2)
                else
                  (case wchan_create name' m2 of
                     (wchan', m3) \<Rightarrow>
                       if wchan' = 0 then (0, kfree lock (kfree wchan' m3))
                       else
                         (lock,
                          m3\<lparr>heap := (heap m3)(lock \<mapsto>
                                LockObj \<lparr>lk_name = name', lock_wchan = wchan',
                                         lock_lock = spinlock_init,
                                         free = True, curr_user = None\<rparr>)\<rparr>))))"

text \<open>\<open>cv_create\<close>, lines 255-281.\<close>

definition cv_create :: "string \<Rightarrow> kmem \<Rightarrow> addr \<times> kmem" where
  "cv_create name m =
    (case kmalloc m of
       (cv, m1) \<Rightarrow>
         if cv = 0 then (0, m1)
         else
           (case kstrdup name m1 of
              (name', m2) \<Rightarrow>
                if name' = 0 then (0, kfree cv m2)
                else
                  (case wchan_create name' m2 of
                     (wchan', m3) \<Rightarrow>
                       if wchan' = 0 then (0, kfree cv (kfree name' m3))
                       else
                         (cv,
                          m3\<lparr>heap := (heap m3)(cv \<mapsto>
                                CvObj \<lparr>cv_name = name', control_wchan = wchan',
                                       control_spinlock = spinlock_init\<rparr>)\<rparr>))))"

text \<open>\<open>sem_destroy\<close>, lines 76-86.\<close>

definition sem_destroy :: "addr \<Rightarrow> kmem \<Rightarrow> outcome" where
  "sem_destroy semp m =
    (if semp = 0 then Halted m
     else
       (case heap m semp of
          Some (SemObj s) \<Rightarrow>
            (case wchan_destroy (sem_wchan s) (spinlock_cleanup (sem_lock s) m) of
               Returned m1 \<Rightarrow> Returned (kfree semp (kfree (sem_name s) m1))
             | Halted m1 \<Rightarrow> Halted m1
             | Undefined \<Rightarrow> Undefined)
        | _ \<Rightarrow> Undefined))"

text \<open>\<open>lock_destroy\<close>, lines 175-193.\<close>

definition lock_destroy :: "addr \<Rightarrow> kmem \<Rightarrow> outcome" where
  "lock_destroy lock m =
    (if lock = 0 then Halted m
     else
       (case heap m lock of
          Some (LockObj l) \<Rightarrow>
            if free l \<noteq> True then Halted m
            else if curr_user l \<noteq> None then Halted m
            else
              (case wchan_destroy (lock_wchan l) (spinlock_cleanup (lock_lock l) m) of
                 Returned m1 \<Rightarrow> Returned (kfree lock (kfree (lk_name l) m1))
               | Halted m1 \<Rightarrow> Halted m1
               | Undefined \<Rightarrow> Undefined)
        | _ \<Rightarrow> Undefined))"

text \<open>\<open>cv_destroy\<close>, lines 283-295.\<close>

definition cv_destroy :: "addr \<Rightarrow> kmem \<Rightarrow> outcome" where
  "cv_destroy cv m =
    (if cv = 0 then Halted m
     else
       (case heap m cv of
          Some (CvObj c) \<Rightarrow>
            (case wchan_destroy (control_wchan c) m of
               Returned m1 \<Rightarrow>
                 Returned (kfree cv (kfree (cv_name c) (spinlock_cleanup (control_spinlock c) m1)))
             | Halted m1 \<Rightarrow> Halted m1
             | Undefined \<Rightarrow> Undefined)
        | _ \<Rightarrow> Undefined))"

text \<open>A memory in which the first two allocation attempts succeed and the third fails.\<close>

definition mem_third_fails :: kmem where
  "mem_third_fails = \<lparr>heap = Map.empty, brk = 1, alloc_plan = [True, True, False]\<rparr>"

text \<open>
  The object that a pointer designates, with its name and wait-channel read through
  their pointers: the structure as the operations of the previous sections see it.
\<close>

definition sem_view :: "kmem \<Rightarrow> addr \<Rightarrow> (string, wchan) semaphore option" where
  "sem_view m p =
    (case heap m p of
       Some (SemObj s) \<Rightarrow>
         (case (heap m (sem_name s), heap m (sem_wchan s)) of
            (Some (Str n), Some (Wchan nm ws)) \<Rightarrow>
              Some \<lparr>sem_name = n, sem_wchan = ws, sem_lock = sem_lock s,
                    sem_count = sem_count s\<rparr>
          | _ \<Rightarrow> None)
     | _ \<Rightarrow> None)"

definition lock_view :: "kmem \<Rightarrow> addr \<Rightarrow> (string, wchan) lock option" where
  "lock_view m p =
    (case heap m p of
       Some (LockObj l) \<Rightarrow>
         (case (heap m (lk_name l), heap m (lock_wchan l)) of
            (Some (Str n), Some (Wchan nm ws)) \<Rightarrow>
              Some \<lparr>lk_name = n, lock_wchan = ws, lock_lock = lock_lock l,
                    free = free l, curr_user = curr_user l\<rparr>
          | _ \<Rightarrow> None)
     | _ \<Rightarrow> None)"

definition cv_view :: "kmem \<Rightarrow> addr \<Rightarrow> (string, wchan) cv option" where
  "cv_view m p =
    (case heap m p of
       Some (CvObj c) \<Rightarrow>
         (case (heap m (cv_name c), heap m (control_wchan c)) of
            (Some (Str n), Some (Wchan nm ws)) \<Rightarrow>
              Some \<lparr>cv_name = n, control_wchan = ws, control_spinlock = control_spinlock c\<rparr>
          | _ \<Rightarrow> None)
     | _ \<Rightarrow> None)"

text \<open>Memory images: the object at address 1, its name at 2, its wait-channel at 3.\<close>

definition mem_of_sem :: "(string, wchan) semaphore \<Rightarrow> kmem" where
  "mem_of_sem s =
    \<lparr>heap = [1 \<mapsto> SemObj \<lparr>sem_name = 2, sem_wchan = 3, sem_lock = sem_lock s,
                           sem_count = sem_count s\<rparr>,
              2 \<mapsto> Str (sem_name s), 3 \<mapsto> Wchan 2 (sem_wchan s)],
     brk = 4, alloc_plan = []\<rparr>"

definition mem_of_lock :: "(string, wchan) lock \<Rightarrow> kmem" where
  "mem_of_lock l =
    \<lparr>heap = [1 \<mapsto> LockObj \<lparr>lk_name = 2, lock_wchan = 3, lock_lock = lock_lock l,
                            free = free l, curr_user = curr_user l\<rparr>,
              2 \<mapsto> Str (lk_name l), 3 \<mapsto> Wchan 2 (lock_wchan l)],
     brk = 4, alloc_plan = []\<rparr>"

definition mem_of_cv :: "(string, wchan) cv \<Rightarrow> kmem" where
  "mem_of_cv c =
    \<lparr>heap = [1 \<mapsto> CvObj \<lparr>cv_name = 2, control_wchan = 3,
                          control_spinlock = control_spinlock c\<rparr>,
              2 \<mapsto> Str (cv_name c), 3 \<mapsto> Wchan 2 (control_wchan c)],
     brk = 4, alloc_plan = []\<rparr>"

text \<open>
  Thread 0 holds the lock, threads 1 and 2 sleep in \<open>lock_acquire\<close>; then thread 0
  releases the lock, which wakes thread 1 only.
\<close>

definition run_lock_two_sleepers :: "mon_event list" where
  "run_lock_two_sleepers =
    run_acquire @
    [MCall 1 (OpAcquire PTR), MStep 1, MStep 1, MStep 1, MStep 1, MStep 1,
     MCall 2 (OpAcquire PTR), MStep 2, MStep 2, MStep 2, MStep 2, MStep 2]"

definition run_lock_free_with_sleeper :: "mon_event list" where
  "run_lock_free_with_sleeper =
    run_lock_two_sleepers @
    [MCall 0 (OpRelease PTR), MStep 0, MStep 0, MStep 0, MStep 0, MStep 0, MStep 0, MStep 0]"

section \<open>Properties of the semaphore\<close>

lemma sem_inv_boot: "sem_inv n (sem_boot name n)"
  by (simp add: sem_inv_def sem_guard_inv_def sem_sleep_inv_def sem_count_inv_def sem_settled_def sem_boot_def spinlock_init_def)

lemmas sem_aux_defs = sem_goto_def sem_panic_def acquire_sem_lock_def spinlock_acquire_def
  spinlock_release_def
  wchan_sleep_def wchan_wakeone_def

lemma sem_guard_inv_step:
  assumes "sem_guard_inv s"
  shows "sem_guard_inv (sem_step t s)"
proof -
  have H: "(sem_lock (sem s) = Some u) = sem_guarded (spc s u)" for u
    using assms by (simp add: sem_guard_inv_def)
  show ?thesis
    unfolding sem_guard_inv_def
  proof
    fix u
    show "(sem_lock (sem (sem_step t s)) = Some u) = sem_guarded (spc (sem_step t s) u)"
    proof (cases "spc s t = V132")
      case True
      show ?thesis
      proof (cases "sem_wchan (sem s)")
        case Nil
        with True H[of u] H[of t] show ?thesis
          by (cases "u = t") (simp_all add: sem_step_def sem_aux_defs)
      next
        case (Cons w ws)
        with True H[of u] H[of t] H[of w] show ?thesis
          by (cases "u = t"; cases "u = w"; cases "w = t") (simp_all add: sem_step_def sem_aux_defs)
      qed
    next
      case False
      with H[of u] H[of t] show ?thesis
        by (cases "spc s t"; cases "sem_lock (sem s)"; cases "u = t")
           (simp_all add: sem_step_def sem_aux_defs)
    qed
  qed
qed

lemma sem_sleep_inv_step:
  assumes "sem_sleep_inv s"
  shows "sem_sleep_inv (sem_step t s)"
proof -
  have D: "distinct (sem_wchan (sem s))"
    and H: "(u \<in> set (sem_wchan (sem s))) = (spc s u = P_asleep)" for u
    using assms by (simp_all add: sem_sleep_inv_def)
  show ?thesis
  proof (cases "spc s t = V132")
    case True
    show ?thesis
    proof (cases "sem_wchan (sem s)")
      case Nil
      with True assms show ?thesis
        by (simp add: sem_sleep_inv_def sem_step_def sem_aux_defs)
    next
      case (Cons w ws)
      with True D H[of t] H[of w] have "w \<noteq> t" "w \<notin> set ws" "distinct ws"
        by auto
      moreover have "(u \<in> set ws) = (u \<noteq> w \<and> spc s u = P_asleep)" for u
        using H[of u] Cons \<open>w \<notin> set ws\<close> by auto
      ultimately show ?thesis using True Cons
        by (simp add: sem_sleep_inv_def sem_step_def sem_aux_defs)
    qed
  next
    case False
    have "distinct (sem_wchan (sem (sem_step t s)))"
      using False D H[of t]
      by (cases "spc s t"; cases "sem_lock (sem s)")
         (simp_all add: sem_step_def sem_aux_defs)
    moreover have "(u \<in> set (sem_wchan (sem (sem_step t s)))) = (spc (sem_step t s) u = P_asleep)" for u
      using False H[of u] H[of t]
      by (cases "spc s t"; cases "sem_lock (sem s)"; cases "u = t")
         (simp_all add: sem_step_def sem_aux_defs)
    ultimately show ?thesis by (simp add: sem_sleep_inv_def)
  qed
qed

lemma sem_positive_unguarded: "\<not> sem_guarded p \<Longrightarrow> sem_positive p c"
  by (cases p) simp_all

lemma sem_count_inv_step:
  assumes "sem_guard_inv s" and "sem_count_inv n s"
  shows "sem_count_inv n (sem_step t s)"
proof -
  have H: "(sem_lock (sem s) = Some u) = sem_guarded (spc s u)" for u
    using assms(1) by (simp add: sem_guard_inv_def)
  have B: "unat (sem_settled s) + completed_P s = unat n + completed_V s"
    and C: "sem_positive (spc s u) (sem_count (sem s))" for u
    using assms(2) by (simp_all add: sem_count_inv_def)
  have inc: "unat (c + 1) = Suc (unat c)" if "c + 1 \<noteq> 0" for c :: "32 word"
    using that unatSuc [of c] by (simp add: add.commute)
  have dec: "unat c = Suc (unat (c - 1))" if "c \<noteq> 0" for c :: "32 word"
    using that unatSuc [of "c - 1"] by simp
  have "unat (sem_settled (sem_step t s)) + completed_P (sem_step t s)
      = unat n + completed_V (sem_step t s)"
  proof (cases "sem_lock (sem s)")
    case None
    with B H[of t] show ?thesis
      by (cases "spc s t") (simp_all add: sem_step_def sem_aux_defs sem_settled_def)
  next
    case (Some h)
    show ?thesis
    proof (cases "h = t")
      case True
      show ?thesis
      proof (cases "spc s t = V134")
        case V: True
        with C[of t] have "unat (sem_count (sem s)) = Suc (unat (sem_count (sem s) - 1))"
          by (simp add: dec)
        with V True Some B show ?thesis
          by (simp add: sem_step_def sem_aux_defs sem_settled_def)
      next
        case False
        with True Some B H[of t] C[of t] show ?thesis
          by (cases "spc s t"; cases "sem_wchan (sem s)")
            (auto simp add: sem_step_def sem_aux_defs sem_settled_def inc)
      qed
    next
      case False
      with Some B H[of t] H[of h] show ?thesis
        by (cases "spc s t")
          (simp_all add: sem_step_def sem_aux_defs sem_settled_def)
    qed
  qed
  moreover have "sem_positive (spc (sem_step t s) u) (sem_count (sem (sem_step t s)))" for u
  proof (cases "u = t")
    case True
    with C[of t] show ?thesis
      by (cases "spc s t"; cases "sem_lock (sem s)"; cases "sem_wchan (sem s)")
        (simp_all add: sem_step_def sem_aux_defs word_greater_zero_iff)
  next
    case False
    with C[of u] H[of t] H[of u] show ?thesis
      by (cases "spc s t"; cases "sem_lock (sem s)"; cases "sem_wchan (sem s)")
        (auto simp add: sem_step_def sem_aux_defs sem_positive_unguarded)
  qed
  ultimately show ?thesis by (simp add: sem_count_inv_def)
qed

lemma sem_inv_fire:
  assumes "sem_inv n s"
  shows "sem_inv n (sem_fire e s)"
proof (cases "s_panicked s")
  case True
  with assms show ?thesis by (simp add: sem_fire_def)
next
  case False
  show ?thesis
  proof (cases e)
    case (SCall t c)
    have "sem_guard_inv (sem_call t c s)"
      using assms
      by (cases c) (auto simp: sem_inv_def sem_guard_inv_def sem_call_def sem_goto_def)
    moreover have "sem_sleep_inv (sem_call t c s)"
      using assms
      by (cases c) (auto simp: sem_inv_def sem_sleep_inv_def sem_call_def sem_goto_def)
    moreover have "sem_count_inv n (sem_call t c s)"
    proof -
      have H: "(sem_lock (sem s) = Some u) = sem_guarded (spc s u)" for u
        using assms by (simp add: sem_inv_def sem_guard_inv_def)
      have "sem_settled (sem_call t c s) = sem_settled s"
        using H[of t]
        by (cases c; cases "sem_lock (sem s)")
           (auto simp: sem_settled_def sem_call_def sem_goto_def)
      moreover have "sem_positive (spc (sem_call t c s) u) (sem_count (sem (sem_call t c s)))" for u
        using assms
        by (cases c) (auto simp: sem_inv_def sem_count_inv_def sem_call_def sem_goto_def)
      moreover have "completed_P (sem_call t c s) = completed_P s"
        "completed_V (sem_call t c s) = completed_V s"
        by (cases c; simp add: sem_call_def sem_goto_def)+
      ultimately show ?thesis using assms by (simp add: sem_inv_def sem_count_inv_def)
    qed
    ultimately show ?thesis using False SCall by (simp add: sem_fire_def sem_inv_def)
  next
    case (SStep t)
    with False assms show ?thesis
      by (simp add: sem_fire_def sem_inv_def sem_guard_inv_step sem_sleep_inv_step
          sem_count_inv_step)
  next
    case (SIrq t b)
    have "sem_settled (s\<lparr>s_in_interrupt := f\<rparr>) = sem_settled s" for f
      by (simp add: sem_settled_def split: option.split)
    with SIrq False assms show ?thesis
      by (simp add: sem_fire_def sem_inv_def sem_guard_inv_def sem_sleep_inv_def
          sem_count_inv_def)
  qed
qed

lemma sem_inv_run: "sem_inv n s \<Longrightarrow> sem_inv n (sem_run es s)"
  by (induction es arbitrary: s) (simp_all add: sem_inv_fire)

lemma sem_inv_reachable: "sem_inv n (sem_run es (sem_boot name n))"
  by (simp add: sem_inv_run sem_inv_boot)

lemma sem_fire_panicked: "s_panicked s \<Longrightarrow> sem_fire e s = s"
  by (simp add: sem_fire_def)

lemma sem_run_panicked: "s_panicked s \<Longrightarrow> sem_run es s = s"
  by (induction es arbitrary: s) (simp_all add: sem_fire_panicked)

lemma sem_frame_fire:
  assumes "sem_guard_inv s" and "sem_lock (sem s) = Some t" and "e \<noteq> SStep t"
  shows "sem (sem_fire e s) = sem s \<and> spc (sem_fire e s) t = spc s t \<and>
         completed_P (sem_fire e s) = completed_P s \<and> completed_V (sem_fire e s) = completed_V s"
proof (cases "s_panicked s")
  case True
  then show ?thesis by (simp add: sem_fire_panicked)
next
  case False
  have H: "(sem_lock (sem s) = Some u) = sem_guarded (spc s u)" for u
    using assms(1) by (simp add: sem_guard_inv_def)
  show ?thesis
  proof (cases e)
    case (SCall u c)
    with False H[of t] assms(2) show ?thesis
      by (cases c; cases "u = t") (auto simp: sem_fire_def sem_call_def sem_goto_def)
  next
    case (SStep u)
    with assms(3) have "u \<noteq> t" by simp
    with H[of u] assms(2) have "\<not> sem_guarded (spc s u)" by simp
    with SStep False \<open>u \<noteq> t\<close> assms(2) show ?thesis
      by (cases "spc s u") (simp_all add: sem_fire_def sem_step_def sem_aux_defs)
  next
    case (SIrq u b)
    with False show ?thesis by (simp add: sem_fire_def)
  qed
qed

lemma sem_frame_run:
  assumes "sem_inv n s" and "sem_lock (sem s) = Some t" and "SStep t \<notin> set es"
  shows "sem (sem_run es s) = sem s \<and> spc (sem_run es s) t = spc s t \<and>
         completed_P (sem_run es s) = completed_P s \<and> completed_V (sem_run es s) = completed_V s"
  using assms
proof (induction es arbitrary: s)
  case Nil
  then show ?case by simp
next
  case (Cons e es)
  from Cons.prems have e: "e \<noteq> SStep t" and es: "SStep t \<notin> set es" by auto
  from Cons.prems have g: "sem_guard_inv s" by (simp add: sem_inv_def)
  note f = sem_frame_fire [OF g Cons.prems(2) e]
  have "sem_inv n (sem_fire e s)" using Cons.prems(1) by (rule sem_inv_fire)
  moreover have "sem_lock (sem (sem_fire e s)) = Some t" using f Cons.prems(2) by simp
  ultimately show ?case using Cons.IH [of "sem_fire e s"] es f by simp
qed

lemma sem_count_fire:
  assumes "sem_inv n s"
  shows "(sem_count (sem (sem_fire e s)) \<noteq> sem_count (sem s) \<longrightarrow>
           (\<exists>t. e = SStep t \<and> sem_lock (sem s) = Some t \<and> sem_lock (sem (sem_fire e s)) = Some t)) \<and>
         (sem_count (sem (sem_fire e s)) = sem_count (sem s) \<or>
          sem_count (sem (sem_fire e s)) = sem_count (sem s) + 1 \<or>
          (sem_count (sem s) \<noteq> 0 \<and> sem_count (sem (sem_fire e s)) = sem_count (sem s) - 1))"
proof (cases "s_panicked s")
  case True
  then show ?thesis by (simp add: sem_fire_panicked)
next
  case False
  have H: "(sem_lock (sem s) = Some u) = sem_guarded (spc s u)" for u
    using assms by (simp add: sem_inv_def sem_guard_inv_def)
  have C: "sem_positive (spc s u) (sem_count (sem s))" for u
    using assms by (simp add: sem_inv_def sem_count_inv_def)
  show ?thesis
  proof (cases e)
    case (SCall u c)
    with False show ?thesis
      by (cases c) (simp_all add: sem_fire_def sem_call_def sem_goto_def)
  next
    case (SStep u)
    with False H[of u] C[of u] show ?thesis
      by (cases "spc s u"; cases "sem_lock (sem s)"; cases "sem_wchan (sem s)")
         (simp_all add: sem_fire_def sem_step_def sem_aux_defs)
  next
    case (SIrq u b)
    with False show ?thesis by (simp add: sem_fire_def)
  qed
qed

text \<open>
  Claim C9. Along every run of \<open>P\<close> and \<open>V\<close> calls on a semaphore created with
  \<open>initial_count\<close>: the number of completed \<open>P\<close> calls never exceeds
  \<open>initial_count\<close> plus the number of completed \<open>V\<close> calls (whenever the guard is free
  the count is exactly the difference); an event that changes \<open>sem_count\<close> is a step of
  the thread that holds the guard, before and after; and every change of the count is an
  increment or a decrement of a non-zero value, so the unsigned count never wraps below 0.
\<close>

theorem sem_count_never_underflows:
  assumes "s = sem_run es (sem_boot name initial_count)"
  shows "completed_P s \<le> unat initial_count + completed_V s \<and>
         (sem_lock (sem s) = None \<longrightarrow>
            unat (sem_count (sem s)) + completed_P s = unat initial_count + completed_V s) \<and>
         (sem_count (sem (sem_fire e s)) \<noteq> sem_count (sem s) \<longrightarrow>
            (\<exists>t. e = SStep t \<and> sem_lock (sem s) = Some t \<and>
                 sem_lock (sem (sem_fire e s)) = Some t)) \<and>
         (sem_count (sem (sem_fire e s)) = sem_count (sem s) \<or>
          sem_count (sem (sem_fire e s)) = sem_count (sem s) + 1 \<or>
          (sem_count (sem s) \<noteq> 0 \<and> sem_count (sem (sem_fire e s)) = sem_count (sem s) - 1))"
proof -
  have inv: "sem_inv initial_count s"
    unfolding assms by (rule sem_inv_reachable)
  then have B: "unat (sem_settled s) + completed_P s = unat initial_count + completed_V s"
    by (simp add: sem_inv_def sem_count_inv_def)
  then have "completed_P s \<le> unat initial_count + completed_V s"
    by arith
  moreover have "sem_lock (sem s) = None \<longrightarrow>
      unat (sem_count (sem s)) + completed_P s = unat initial_count + completed_V s"
    using B by (auto simp: sem_settled_def)
  ultimately show ?thesis
    using sem_count_fire [OF inv, of e] by blast
qed

lemmas sem_eval = sem_fire_def sem_call_def sem_step_def sem_goto_def sem_panic_def
  acquire_sem_lock_def
  sem_boot_def spinlock_init_def spinlock_acquire_def spinlock_release_def
  wchan_sleep_def wchan_wakeone_def

theorem sem_count_never_underflows_witness:
  "sem_lock (sem (sem_run [] (sem_boot ''s'' 1))) = None \<and>
   unat (sem_count (sem (sem_run [] (sem_boot ''s'' 1))))
     + completed_P (sem_run [] (sem_boot ''s'' 1))
     = unat (1 :: 32 word) + completed_V (sem_run [] (sem_boot ''s'' 1)) \<and>
   sem_lock (sem (sem_run run_P_line119 (sem_boot ''s'' 1))) = Some 0 \<and>
   sem_count (sem (sem_run run_P_line119 (sem_boot ''s'' 1))) = 1 \<and>
   sem_count (sem (sem_fire (SStep 0) (sem_run run_P_line119 (sem_boot ''s'' 1)))) = 0 \<and>
   completed_P (sem_run run_P_line119 (sem_boot ''s'' 1)) \<le>
     unat (1 :: 32 word) + completed_V (sem_run run_P_line119 (sem_boot ''s'' 1))"
  using
    sem_count_never_underflows [of "sem_run [] (sem_boot ''s'' 1)" "[]" "''s''" 1 "SStep 0"]
    sem_count_never_underflows
      [of "sem_run run_P_line119 (sem_boot ''s'' 1)" run_P_line119 "''s''" 1 "SStep 0"]
  by (simp add: run_P_line119_def sem_eval)

lemma sem_pc_frame_fire:
  assumes "sem_inv n s" and "e \<noteq> SStep t" and "spc s t \<noteq> SemIdle" and "spc s t
    \<noteq> P_asleep"
  shows "spc (sem_fire e s) t = spc s t"
proof (cases "s_panicked s")
  case True
  then show ?thesis by (simp add: sem_fire_panicked)
next
  case False
  have S: "(u \<in> set (sem_wchan (sem s))) = (spc s u = P_asleep)" for u
    using assms(1) by (simp add: sem_inv_def sem_sleep_inv_def)
  show ?thesis
  proof (cases e)
    case (SCall u c)
    with False assms(3) show ?thesis
      by (cases c) (auto simp: sem_fire_def sem_call_def sem_goto_def)
  next
    case (SStep u)
    with assms(2) have ne: "u \<noteq> t" by simp
    show ?thesis
    proof (cases "sem_wchan (sem s)")
      case Nil
      with SStep False ne show ?thesis
        by (cases "spc s u"; cases "sem_lock (sem s)")
           (auto simp: sem_fire_def sem_step_def sem_aux_defs)
    next
      case (Cons w ws)
      with S[of w] assms(4) have "w \<noteq> t" by auto
      with Cons SStep False ne show ?thesis
        by (cases "spc s u"; cases "sem_lock (sem s)")
           (auto simp: sem_fire_def sem_step_def sem_aux_defs)
    qed
  next
    case (SIrq u b)
    with False show ?thesis by (simp add: sem_fire_def)
  qed
qed

lemma sem_pc_frame_run:
  assumes "sem_inv n s" and "SStep t \<notin> set es" and "spc s t \<noteq> SemIdle" and "spc s t
    \<noteq> P_asleep"
  shows "spc (sem_run es s) t = spc s t"
  using assms
proof (induction es arbitrary: s)
  case Nil
  then show ?case by simp
next
  case (Cons e es)
  from Cons.prems have e: "e \<noteq> SStep t" and es: "SStep t \<notin> set es" by auto
  note f = sem_pc_frame_fire [OF Cons.prems(1) e Cons.prems(3,4)]
  have "sem_inv n (sem_fire e s)" using Cons.prems(1) by (rule sem_inv_fire)
  with Cons.IH [of "sem_fire e s"] es f Cons.prems(3,4) show ?case by simp
qed

lemma sem_irq_frame_fire:
  assumes "e \<noteq> SIrq t True" and "s_in_interrupt s t = False"
  shows "s_in_interrupt (sem_fire e s) t = False"
proof (cases "s_panicked s")
  case True
  with assms(2) show ?thesis by (simp add: sem_fire_panicked)
next
  case False
  show ?thesis
  proof (cases e)
    case (SCall u c)
    with False assms(2) show ?thesis
      by (cases c) (auto simp: sem_fire_def sem_call_def sem_goto_def)
  next
    case (SStep u)
    with False assms(2) show ?thesis
      by (cases "spc s u"; cases "sem_lock (sem s)"; cases "sem_wchan (sem s)")
         (auto simp: sem_fire_def sem_step_def sem_aux_defs)
  next
    case (SIrq u b)
    with False assms show ?thesis by (auto simp: sem_fire_def)
  qed
qed

lemma sem_irq_frame_run:
  assumes "SIrq t True \<notin> set es" and "s_in_interrupt s t = False"
  shows "s_in_interrupt (sem_run es s) t = False"
  using assms
proof (induction es arbitrary: s)
  case Nil
  then show ?case by simp
next
  case (Cons e es)
  from Cons.prems have e: "e \<noteq> SIrq t True" and es: "SIrq t True \<notin> set es" by auto
  from Cons.IH [OF es sem_irq_frame_fire [OF e Cons.prems(2)]] show ?case by simp
qed

lemma sem_asleep_fire:
  assumes "sem_inv n s" and "spc s t = P_asleep"
  shows "t \<in> set (sem_wchan (sem s)) \<and> sem_step t s = s \<and>
         (spc (sem_fire e s) t = P_asleep \<or> spc (sem_fire e s) t = P_woken)"
proof -
  have S: "(u \<in> set (sem_wchan (sem s))) = (spc s u = P_asleep)" for u
    using assms(1) by (simp add: sem_inv_def sem_sleep_inv_def)
  have "spc (sem_fire e s) t = P_asleep \<or> spc (sem_fire e s) t = P_woken"
  proof (cases "s_panicked s")
    case True
    with assms(2) show ?thesis by (simp add: sem_fire_panicked)
  next
    case False
    show ?thesis
    proof (cases e)
      case (SCall u c)
      with False assms(2) show ?thesis
        by (cases c) (auto simp: sem_fire_def sem_call_def sem_goto_def)
    next
      case (SStep u)
      with False assms(2) show ?thesis
        by (cases "spc s u"; cases "sem_lock (sem s)"; cases "sem_wchan (sem s)"; cases "u = t")
           (auto simp: sem_fire_def sem_step_def sem_aux_defs)
    next
      case (SIrq u b)
      with False assms(2) show ?thesis by (simp add: sem_fire_def)
    qed
  qed
  with S[of t] assms(2) show ?thesis by (simp add: sem_step_def)
qed

lemma sem_P_entry:
  assumes inv: "sem_inv n s" and np: "\<not> s_panicked s" and pc: "spc s t = SemIdle"
    and irq: "s_in_interrupt s t = False"
    and a0: "sem_aside t es0 (sem_fire (SCall t (OpP PTR)) s)" and i0: "SIrq t True \<notin> set
      es0"
    and as: "sem_asides t [es1, es2] (sem_run es0 (sem_fire (SCall t (OpP PTR)) s))"
    and i1: "SIrq t True \<notin> set es1"
  shows "spc (sem_turns t [es1, es2] (sem_run es0 (sem_fire (SCall t (OpP PTR)) s))) t = P102 \<and>
         \<not> s_panicked (sem_turns t [es1, es2] (sem_run es0 (sem_fire (SCall t (OpP PTR)) s)))"
proof -
  define c where "c = sem_fire (SCall t (OpP PTR)) s"
  define c' where "c' = sem_run es0 c"
  define a where "a = sem_fire (SStep t) c'"
  define a' where "a' = sem_run es1 a"
  define b where "b = sem_fire (SStep t) a'"
  define b' where "b' = sem_run es2 b"
  have run: "sem_turns t [es1, es2] (sem_run es0 (sem_fire (SCall t (OpP PTR)) s)) = b'"
    by (simp add: c_def c'_def a_def a'_def b_def b'_def)
  from a0 have o0: "SStep t \<notin> set es0" and q0: "s_panicked c' = s_panicked c"
    by (simp_all add: sem_aside_def c_def c'_def)
  from as have o1: "SStep t \<notin> set es1" and q1: "s_panicked a' = s_panicked a"
    and o2: "SStep t \<notin> set es2" and q2: "s_panicked b' = s_panicked b"
    by (simp_all add: sem_aside_def c_def c'_def a_def a'_def b_def b'_def)
  have c: "spc c t = P91 PTR" "\<not> s_panicked c" "s_in_interrupt c t = False"
    using np pc irq by (simp_all add: c_def sem_fire_def sem_call_def sem_goto_def)
  have inv_c: "sem_inv n c" unfolding c_def using inv by (rule sem_inv_fire)
  have fc: "spc c' t = P91 PTR" "\<not> s_panicked c'" "s_in_interrupt c' t = False"
    using sem_pc_frame_run [OF inv_c o0] sem_irq_frame_run [OF i0 c(3)] c q0
    by (simp_all add: c'_def)
  have inv_c': "sem_inv n c'" unfolding c'_def using inv_c by (rule sem_inv_run)
  have a: "spc a t = P99" "\<not> s_panicked a" "s_in_interrupt a t = False"
    using fc by (simp_all add: a_def sem_fire_def sem_step_def sem_goto_def)
  have inv_a: "sem_inv n a" unfolding a_def using inv_c' by (rule sem_inv_fire)
  have fa: "spc a' t = P99" "\<not> s_panicked a'" "s_in_interrupt a' t = False"
    using sem_pc_frame_run [OF inv_a o1] sem_irq_frame_run [OF i1 a(3)] a q1
    by (simp_all add: a'_def)
  have inv_a': "sem_inv n a'" unfolding a'_def using inv_a by (rule sem_inv_run)
  have b: "spc b t = P102" "\<not> s_panicked b"
    using fa by (simp_all add: b_def sem_fire_def sem_step_def sem_goto_def)
  have inv_b: "sem_inv n b" unfolding b_def using inv_a' by (rule sem_inv_fire)
  have fb: "spc b' t = P102" "\<not> s_panicked b'"
    using sem_pc_frame_run [OF inv_b o2] b q2 by (simp_all add: b'_def)
  show ?thesis unfolding run using fb by simp
qed

lemma sem_P_sleep:
  assumes inv: "sem_inv n s" and np: "\<not> s_panicked s"
    and pc: "spc s t = P103" and zero: "sem_count (sem s) = 0"
    and as: "sem_asides t [es1, []] s"
  shows "sem (sem_turns t [es1, []] s)
           = (sem s)\<lparr>sem_wchan := sem_wchan (sem s) @ [t], sem_lock := None\<rparr> \<and>
         spc (sem_turns t [es1, []] s) t = P_asleep \<and>
         \<not> s_panicked (sem_turns t [es1, []] s)"
proof -
  define a where "a = sem_fire (SStep t) s"
  define a' where "a' = sem_run es1 a"
  define b where "b = sem_fire (SStep t) a'"
  have run: "sem_turns t [es1, []] s = b"
    by (simp add: a_def a'_def b_def)
  from as have o1: "SStep t \<notin> set es1" and q1: "s_panicked a' = s_panicked a"
    by (simp_all add: sem_aside_def a_def a'_def)
  have g_s: "sem_lock (sem s) = Some t"
    using inv pc by (simp add: sem_inv_def sem_guard_inv_def)
  have a: "sem a = sem s" "spc a t = P116" "\<not> s_panicked a"
    using np pc zero by (simp_all add: a_def sem_fire_def sem_step_def sem_goto_def)
  have inv_a: "sem_inv n a" unfolding a_def using inv by (rule sem_inv_fire)
  have fa: "sem a' = sem s" "spc a' t = P116" "\<not> s_panicked a'"
    using sem_frame_run [OF inv_a _ o1] a g_s q1 by (simp_all add: a'_def)
  have b: "sem b = (sem s)\<lparr>sem_wchan := sem_wchan (sem s) @ [t], sem_lock := None\<rparr>"
    "spc b t = P_asleep" "\<not> s_panicked b"
    using fa by (simp_all add: b_def sem_fire_def sem_step_def sem_aux_defs)
  show ?thesis unfolding run using b by simp
qed

lemma sem_P_commit:
  assumes inv: "sem_inv n s" and np: "\<not> s_panicked s"
    and pc: "spc s t = P103" and pos: "sem_count (sem s) \<noteq> 0"
    and as: "sem_asides t [es1, es2, es3, []] s"
  shows "sem (sem_turns t [es1, es2, es3, []] s)
           = (sem s)\<lparr>sem_count := sem_count (sem s) - 1, sem_lock := None\<rparr> \<and>
         spc (sem_turns t [es1, es2, es3, []] s) t = SemIdle \<and>
         completed_P (sem_turns t [es1, es2, es3, []] s) = Suc (completed_P s) \<and>
         \<not> s_panicked (sem_turns t [es1, es2, es3, []] s)"
proof -
  define a where "a = sem_fire (SStep t) s"
  define a' where "a' = sem_run es1 a"
  define b where "b = sem_fire (SStep t) a'"
  define b' where "b' = sem_run es2 b"
  define c where "c = sem_fire (SStep t) b'"
  define c' where "c' = sem_run es3 c"
  define d where "d = sem_fire (SStep t) c'"
  have run: "sem_turns t [es1, es2, es3, []] s = d"
    by (simp add: a_def a'_def b_def b'_def c_def c'_def d_def)
  from as have o1: "SStep t \<notin> set es1" and q1: "s_panicked a' = s_panicked a"
    and o2: "SStep t \<notin> set es2" and q2: "s_panicked b' = s_panicked b"
    and o3: "SStep t \<notin> set es3" and q3: "s_panicked c' = s_panicked c"
    by (simp_all add: sem_aside_def a_def a'_def b_def b'_def c_def c'_def)
  have g_s: "sem_lock (sem s) = Some t"
    using inv pc by (simp add: sem_inv_def sem_guard_inv_def)
  have a: "sem a = sem s" "spc a t = P118" "completed_P a = completed_P s" "\<not> s_panicked a"
    using np pc pos by (simp_all add: a_def sem_fire_def sem_step_def sem_goto_def)
  have inv_a: "sem_inv n a" unfolding a_def using inv by (rule sem_inv_fire)
  have fa: "sem a' = sem s" "spc a' t = P118" "completed_P a' = completed_P s"
    "\<not> s_panicked a'"
    using sem_frame_run [OF inv_a _ o1] a g_s q1 by (simp_all add: a'_def)
  have inv_a': "sem_inv n a'" unfolding a'_def using inv_a by (rule sem_inv_run)
  have b: "sem b = sem s" "spc b t = P119" "completed_P b = completed_P s" "\<not> s_panicked b"
    using fa pos
    by (simp_all add: b_def sem_fire_def sem_step_def sem_goto_def word_greater_zero_iff)
  have inv_b: "sem_inv n b" unfolding b_def using inv_a' by (rule sem_inv_fire)
  have fb: "sem b' = sem s" "spc b' t = P119" "completed_P b' = completed_P s"
    "\<not> s_panicked b'"
    using sem_frame_run [OF inv_b _ o2] b g_s q2 by (simp_all add: b'_def)
  have inv_b': "sem_inv n b'" unfolding b'_def using inv_b by (rule sem_inv_run)
  have c: "sem c = (sem s)\<lparr>sem_count := sem_count (sem s) - 1\<rparr>" "spc c t = P120"
    "completed_P c = completed_P s" "\<not> s_panicked c"
    using fb by (simp_all add: c_def sem_fire_def sem_step_def sem_goto_def)
  have inv_c: "sem_inv n c" unfolding c_def using inv_b' by (rule sem_inv_fire)
  have fc: "sem c' = (sem s)\<lparr>sem_count := sem_count (sem s) - 1\<rparr>" "spc c' t = P120"
    "completed_P c' = completed_P s" "\<not> s_panicked c'"
    using sem_frame_run [OF inv_c _ o3] c g_s q3 by (simp_all add: c'_def)
  have d: "sem d = (sem s)\<lparr>sem_count := sem_count (sem s) - 1, sem_lock := None\<rparr>"
    "spc d t = SemIdle" "completed_P d = Suc (completed_P s)" "\<not> s_panicked d"
    using fc by (simp_all add: d_def sem_fire_def sem_step_def sem_aux_defs)
  show ?thesis unfolding run using d by simp
qed

text \<open>
  Claim C4 fails as stated for a call in interrupt context. Thread 0 enters interrupt
  context and calls \<open>P\<close> on a semaphore of count 1: the assertion of line 99
  halts the kernel before the guard is taken; the count is not decremented and the call
  never returns, however many more statements the thread is given.
\<close>

theorem P_in_interrupt_context_counterexample:
  "s_in_interrupt (sem_run run_P_in_interrupt (sem_boot ''s'' 1)) 0 = True \<and>
   s_panicked (sem_run run_P_in_interrupt (sem_boot ''s'' 1)) = True \<and>
   spc (sem_run run_P_in_interrupt (sem_boot ''s'' 1)) 0 = P99 \<and>
   sem_count (sem (sem_run run_P_in_interrupt (sem_boot ''s'' 1))) = 1 \<and>
   sem_lock (sem (sem_run run_P_in_interrupt (sem_boot ''s'' 1))) = None \<and>
   spc (sem_run (run_P_in_interrupt @ [SStep 0, SStep 0, SStep 0, SStep 0]) (sem_boot ''s'' 1)) 0
     = P99 \<and>
   sem_count (sem (sem_run (run_P_in_interrupt @ [SStep 0, SStep 0, SStep 0, SStep 0])
     (sem_boot ''s'' 1))) = 1 \<and>
   completed_P (sem_run (run_P_in_interrupt @ [SStep 0, SStep 0, SStep 0, SStep 0])
     (sem_boot ''s'' 1)) = 0"
  by (simp add: run_P_in_interrupt_def sem_fire_def sem_call_def sem_step_def sem_goto_def
      sem_panic_def sem_boot_def spinlock_init_def)

text \<open>
  Claim C4, amended: for every call to \<open>P\<close> on a non-null semaphore by a thread
  \<open>t\<close> that is not in interrupt context. In every reachable state in which the
  kernel runs: if \<open>t\<close> is idle and calls \<open>P\<close>, then whatever the
  other threads do in between (short of halting the kernel or putting \<open>t\<close> in
  interrupt context), its first two statements pass both assertions and bring it to
  \<open>spinlock_acquire\<close> (line 102); there, and when it has been woken inside
  \<open>wchan_sleep\<close>, it takes the guard if the guard is free and spins otherwise,
  and with the guard it stands at the loop test (line 103); if it reads \<open>sem_count =
  0\<close> there, its next two statements leave it enqueued on the wait-channel with the
  guard released in one step; asleep, it stays on the wait-channel until another thread
  wakes it; and if it reads a non-zero count at the loop test, its next four statements pass
  the assertion of line 118 and leave \<open>P\<close> with the count exactly one below the
  value it read, the guard released and one more completed \<open>P\<close>. None of these
  statements of \<open>t\<close> halts the kernel.
\<close>

theorem P_sleeps_until_positive_then_decrements:
  assumes "s = sem_run es (sem_boot name initial_count)" and "\<not> s_panicked s"
  shows
    "(spc s t = SemIdle \<and> s_in_interrupt s t = False \<and>
      sem_aside t es0 (sem_fire (SCall t (OpP PTR)) s) \<and> SIrq t True \<notin> set es0 \<and>
      sem_asides t [es1, es2] (sem_run es0 (sem_fire (SCall t (OpP PTR)) s)) \<and>
      SIrq t True \<notin> set es1 \<longrightarrow>
        spc (sem_turns t [es1, es2] (sem_run es0 (sem_fire (SCall t (OpP PTR)) s))) t = P102 \<and>
        \<not> s_panicked (sem_turns t [es1, es2] (sem_run es0 (sem_fire (SCall t (OpP PTR)) s))))
          \<and>
     (spc s t = P102 \<or> spc s t = P_woken \<longrightarrow>
        (sem_lock (sem s) = None \<longrightarrow>
           sem_step t s = s\<lparr>sem := (sem s)\<lparr>sem_lock := Some t\<rparr>,
                            spc := (spc s)(t := P103)\<rparr>) \<and>
        (sem_lock (sem s) \<noteq> None \<longrightarrow> sem_step t s = s) \<and>
        (e \<noteq> SStep t \<longrightarrow> spc (sem_fire e s) t = spc s t)) \<and>
     (spc s t = P103 \<longrightarrow> sem_lock (sem s) = Some t) \<and>
     (spc s t = P103 \<and> sem_count (sem s) = 0 \<and> sem_asides t [es1, []] s \<longrightarrow>
        sem (sem_turns t [es1, []] s)
          = (sem s)\<lparr>sem_wchan := sem_wchan (sem s) @ [t], sem_lock := None\<rparr> \<and>
        spc (sem_turns t [es1, []] s) t = P_asleep \<and>
        \<not> s_panicked (sem_turns t [es1, []] s)) \<and>
     (spc s t = P_asleep \<longrightarrow>
        t \<in> set (sem_wchan (sem s)) \<and> sem_step t s = s \<and>
        (spc (sem_fire e s) t = P_asleep \<or> spc (sem_fire e s) t = P_woken)) \<and>
     (spc s t = P103 \<and> sem_count (sem s) \<noteq> 0 \<and> sem_asides t [es1, es2, es3, []] s
       \<longrightarrow>
        sem (sem_turns t [es1, es2, es3, []] s)
          = (sem s)\<lparr>sem_count := sem_count (sem s) - 1, sem_lock := None\<rparr> \<and>
        unat (sem_count (sem s) - 1) = unat (sem_count (sem s)) - 1 \<and>
        spc (sem_turns t [es1, es2, es3, []] s) t = SemIdle \<and>
        completed_P (sem_turns t [es1, es2, es3, []] s) = Suc (completed_P s) \<and>
        \<not> s_panicked (sem_turns t [es1, es2, es3, []] s))"
proof -
  have inv: "sem_inv initial_count s"
    unfolding assms by (rule sem_inv_reachable)
  have 1: "spc s t = P103 \<longrightarrow> sem_lock (sem s) = Some t"
    using inv by (simp add: sem_inv_def sem_guard_inv_def)
  have 2: "spc s t = P102 \<or> spc s t = P_woken \<longrightarrow>
        (sem_lock (sem s) = None \<longrightarrow>
           sem_step t s = s\<lparr>sem := (sem s)\<lparr>sem_lock := Some t\<rparr>,
                            spc := (spc s)(t := P103)\<rparr>) \<and>
        (sem_lock (sem s) \<noteq> None \<longrightarrow> sem_step t s = s) \<and>
        (e \<noteq> SStep t \<longrightarrow> spc (sem_fire e s) t = spc s t)"
    using sem_pc_frame_fire [OF inv, of e t]
    by (auto simp: sem_step_def sem_aux_defs)
  have dec: "unat (c - 1) = unat c - 1" if "c \<noteq> 0" for c :: "32 word"
    using that unatSuc [of "c - 1"] by simp
  show ?thesis
    using 1 2 sem_P_entry [OF inv assms(2), of t es0 es1 es2]
      sem_P_sleep [OF inv assms(2), of t es1] sem_asleep_fire [OF inv, of t e]
      sem_P_commit [OF inv assms(2), of t es1 es2 es3]
      dec [of "sem_count (sem s)"]
    by blast
qed

theorem P_sleeps_until_positive_then_decrements_witness:
  "spc (sem_turns 0 [[SStep 1], [SIrq 1 True]]
     (sem_run [SCall 1 (OpV PTR)] (sem_fire (SCall 0 (OpP PTR)) (sem_run [] (sem_boot ''s'' 0))))) 0
     = P102 \<and>
   \<not> s_panicked (sem_turns 0 [[SStep 1], [SIrq 1 True]]
     (sem_run [SCall 1 (OpV PTR)] (sem_fire (SCall 0 (OpP PTR)) (sem_run [] (sem_boot ''s'' 0)))))
       \<and>
   spc (sem_step 0 (sem_run [SCall 0 (OpP PTR), SStep 0, SStep 0] (sem_boot ''s'' 0))) 0 = P103
     \<and>
   sem_lock (sem (sem_run run_P_line103 (sem_boot ''s'' 0))) = Some 0 \<and>
   spc (sem_turns 0 [[SCall 1 (OpV PTR)], []] (sem_run run_P_line103 (sem_boot ''s'' 0))) 0
     = P_asleep \<and>
   sem_lock (sem (sem_turns 0 [[SCall 1 (OpV PTR)], []]
     (sem_run run_P_line103 (sem_boot ''s'' 0)))) = None \<and>
   0 \<in> set (sem_wchan (sem (sem_run run_P_asleep (sem_boot ''s'' 0)))) \<and>
   spc (sem_run run_P_woken (sem_boot ''s'' 0)) 0 = P_woken \<and>
   sem_step 0 (sem_run run_P_woken (sem_boot ''s'' 0)) = sem_run run_P_woken (sem_boot ''s'' 0)
     \<and>
   spc (sem_fire (SStep 1) (sem_run run_P_woken (sem_boot ''s'' 0))) 0 = P_woken \<and>
   sem_count (sem (sem_run run_P_line103 (sem_boot ''s'' 1))) = 1 \<and>
   sem_count (sem (sem_turns 0 [[SCall 1 (OpV PTR)], [SStep 1], [SIrq 1 True], []]
     (sem_run run_P_line103 (sem_boot ''s'' 1)))) = 0 \<and>
   spc (sem_turns 0 [[SCall 1 (OpV PTR)], [SStep 1], [SIrq 1 True], []]
     (sem_run run_P_line103 (sem_boot ''s'' 1))) 0 = SemIdle \<and>
   \<not> s_panicked (sem_turns 0 [[SCall 1 (OpV PTR)], [SStep 1], [SIrq 1 True], []]
     (sem_run run_P_line103 (sem_boot ''s'' 1)))"
proof -
  define i where "i = sem_run [] (sem_boot ''s'' 0)"
  define g where "g = sem_run [SCall 0 (OpP PTR), SStep 0, SStep 0] (sem_boot ''s'' 0)"
  define a where "a = sem_run run_P_line103 (sem_boot ''s'' 0)"
  define b where "b = sem_run run_P_asleep (sem_boot ''s'' 0)"
  define c where "c = sem_run run_P_woken (sem_boot ''s'' 0)"
  define d where "d = sem_run run_P_line103 (sem_boot ''s'' 1)"
  have ei: "\<not> s_panicked i" "spc i 0 = SemIdle" "s_in_interrupt i 0 = False"
    "sem_aside 0 [SCall 1 (OpV PTR)] (sem_fire (SCall 0 (OpP PTR)) i)"
    "sem_asides 0 [[SStep 1], [SIrq 1 True]]
       (sem_run [SCall 1 (OpV PTR)] (sem_fire (SCall 0 (OpP PTR)) i))"
    by (simp_all add: i_def sem_aside_def sem_eval)
  have eg: "\<not> s_panicked g" "spc g 0 = P102" "sem_lock (sem g) = None"
    by (simp_all add: g_def sem_eval)
  have ea: "\<not> s_panicked a" "spc a 0 = P103" "sem_count (sem a) = 0"
    "sem_asides 0 [[SCall 1 (OpV PTR)], []] a"
    by (simp_all add: a_def run_P_line103_def sem_aside_def sem_eval)
  have eb: "\<not> s_panicked b" "spc b 0 = P_asleep"
    by (simp_all add: b_def run_P_asleep_def run_P_line103_def sem_eval)
  have ec: "\<not> s_panicked c" "spc c 0 = P_woken" "sem_lock (sem c) \<noteq> None"
    by (simp_all add: c_def run_P_woken_def run_P_asleep_def run_P_line103_def sem_eval)
  have ed: "\<not> s_panicked d" "spc d 0 = P103" "sem_count (sem d) = 1"
    "sem_asides 0 [[SCall 1 (OpV PTR)], [SStep 1], [SIrq 1 True], []] d"
    by (simp_all add: d_def run_P_line103_def sem_aside_def sem_eval)
  note ti = P_sleeps_until_positive_then_decrements
    [OF i_def ei(1), of 0 "[SCall 1 (OpV PTR)]" "[SStep 1]" "[SIrq 1 True]"]
  note tg = P_sleeps_until_positive_then_decrements [OF g_def eg(1), of 0]
  note ta = P_sleeps_until_positive_then_decrements
    [OF a_def ea(1), of 0 _ "[SCall 1 (OpV PTR)]"]
  note tb = P_sleeps_until_positive_then_decrements [OF b_def eb(1), of 0]
  note tc = P_sleeps_until_positive_then_decrements [OF c_def ec(1), of 0 _ _ _ "SStep 1"]
  note td = P_sleeps_until_positive_then_decrements
    [OF d_def ed(1), of 0 _ "[SCall 1 (OpV PTR)]" "[SStep 1]" _ "[SIrq 1 True]"]
  have ri: "spc (sem_turns 0 [[SStep 1], [SIrq 1 True]]
       (sem_run [SCall 1 (OpV PTR)] (sem_fire (SCall 0 (OpP PTR)) i))) 0 = P102"
    "\<not> s_panicked (sem_turns 0 [[SStep 1], [SIrq 1 True]]
       (sem_run [SCall 1 (OpV PTR)] (sem_fire (SCall 0 (OpP PTR)) i)))"
    using ti ei by simp_all
  have rg: "spc (sem_step 0 g) 0 = P103"
    using tg eg by simp
  have ra: "sem_lock (sem a) = Some 0"
    "spc (sem_turns 0 [[SCall 1 (OpV PTR)], []] a) 0 = P_asleep"
    "sem_lock (sem (sem_turns 0 [[SCall 1 (OpV PTR)], []] a)) = None"
    using ta ea by simp_all
  have rb: "0 \<in> set (sem_wchan (sem b))"
    using tb eb by simp
  have rc: "sem_step 0 c = c" "spc (sem_fire (SStep 1) c) 0 = P_woken"
    using tc ec by simp_all
  have rd: "sem_count (sem (sem_turns 0 [[SCall 1 (OpV PTR)], [SStep 1], [SIrq 1 True], []] d))
      = 0"
    "spc (sem_turns 0 [[SCall 1 (OpV PTR)], [SStep 1], [SIrq 1 True], []] d) 0 = SemIdle"
    "\<not> s_panicked (sem_turns 0 [[SCall 1 (OpV PTR)], [SStep 1], [SIrq 1 True], []] d)"
    using td ed by simp_all
  show ?thesis
    using ri rg ra rb ec(2) rc ed(3) rd unfolding i_def g_def a_def b_def c_def d_def by blast
qed

section \<open>Properties of the lock and the condition variable\<close>

lemmas mon_aux_defs = mon_goto_def mon_panic_def spinlock_acquire_def spinlock_release_def
  wchan_sleep_def wchan_wakeone_def wchan_wakeall_def acquire_lock_lock_def
  acquire_control_spinlock_def

lemma woken_pc_idem: "woken_pc (woken_pc p) = woken_pc p"
  by (cases p) simp_all

lemma mon_wake_apply:
  "mon_wake ws f u = (if u \<in> set ws then woken_pc (f u) else f u)"
  by (induction ws arbitrary: f) (auto simp: woken_pc_idem)

lemma woken_pc_views:
  "lk_guarded (woken_pc p) = lk_guarded p"
  "cv_guarded (woken_pc p) = cv_guarded p"
  "lk_view_of (woken_pc p) = lk_view_of p"
  "lk_midway (woken_pc p) = lk_midway p"
  by (cases p; simp)+

lemma cv_guarded_caller:
  "cv_guarded (R223 p c) = (c = CvWait)"
  "cv_guarded (R224 c) = (c = CvWait)"
  "cv_guarded (R225 c) = (c = CvWait)"
  "cv_guarded (R226 c) = (c = CvWait)"
  "cv_guarded (R227 c) = (c = CvWait)"
  "cv_guarded (R228 c) = (c = CvWait)"
  "cv_guarded (R229 c) = (c = CvWait)"
  by (cases c; simp)+

lemma lk_view_of_caller:
  "lk_view_of (R223 p c) = (if c = CvWait then Owner else Any)"
  "lk_view_of (R224 c) = (if c = CvWait then Owner else Any)"
  by (cases c; simp)+

lemma mon_inv_boot: "mon_inv (mon_boot ln cn)"
  by (simp add: mon_inv_def mon_lock_inv_def mon_cv_inv_def mon_field_inv_def
      mon_sleep_inv_def mon_boot_def spinlock_init_def)

lemma mon_step_other:
  "u \<noteq> t \<Longrightarrow> mpc (mon_step t s) u = mpc s u \<or> mpc (mon_step t s) u = woken_pc (mpc s u)"
  by (cases "mpc s t"; cases "lock_lock (lk s)"; cases "control_spinlock (cond s)";
      cases "lock_wchan (lk s)"; cases "control_wchan (cond s)")
    (simp_all add: mon_step_def mon_aux_defs mon_wake_apply woken_pc_idem)

lemma mon_lock_inv_step:
  assumes "mon_lock_inv s"
  shows "mon_lock_inv (mon_step t s)"
proof -
  have H: "(lock_lock (lk s) = Some u) = lk_guarded (mpc s u)" for u
    using assms by (simp add: mon_lock_inv_def)
  show ?thesis
    unfolding mon_lock_inv_def
  proof
    fix u
    show "(lock_lock (lk (mon_step t s)) = Some u) = lk_guarded (mpc (mon_step t s) u)"
    proof (cases "u = t")
      case True
      with H[of t] show ?thesis
        by (cases "mpc s t")
          (auto simp add: mon_step_def mon_aux_defs cv_guarded_caller split: caller.splits option.splits list.splits)
    next
      case False
      then have "lk_guarded (mpc (mon_step t s) u) = lk_guarded (mpc s u)"
        using mon_step_other [of u t s] by (auto simp: woken_pc_views)
      moreover have "(lock_lock (lk (mon_step t s)) = Some u) = (lock_lock (lk s) = Some u)"
        using False H[of t]
        by (cases "mpc s t")
          (auto simp add: mon_step_def mon_aux_defs split: option.splits list.splits)
      ultimately show ?thesis using H[of u] by simp
    qed
  qed
qed

lemma mon_cv_inv_step:
  assumes "mon_cv_inv s"
  shows "mon_cv_inv (mon_step t s)"
proof -
  have H: "(control_spinlock (cond s) = Some u) = cv_guarded (mpc s u)" for u
    using assms by (simp add: mon_cv_inv_def)
  show ?thesis
    unfolding mon_cv_inv_def
  proof
    fix u
    show "(control_spinlock (cond (mon_step t s)) = Some u) = cv_guarded (mpc (mon_step t s) u)"
    proof (cases "u = t")
      case True
      with H[of t] show ?thesis
        by (cases "mpc s t")
          (auto simp add: mon_step_def mon_aux_defs cv_guarded_caller split: caller.splits option.splits list.splits)
    next
      case False
      then have "cv_guarded (mpc (mon_step t s) u) = cv_guarded (mpc s u)"
        using mon_step_other [of u t s] by (auto simp: woken_pc_views)
      moreover have "(control_spinlock (cond (mon_step t s)) = Some u)
          = (control_spinlock (cond s) = Some u)"
        using False H[of t]
        by (cases "mpc s t")
          (auto simp add: mon_step_def mon_aux_defs split: option.splits list.splits)
      ultimately show ?thesis using H[of u] by simp
    qed
  qed
qed

lemma lk_view_guarded:
  "lk_view_of p \<noteq> Any \<Longrightarrow> lk_view_of p \<noteq> Owner \<Longrightarrow> lk_guarded p"
  by (cases p rule: lk_view_of.cases) simp_all

lemma mon_step_fields:
  "free (lk (mon_step t s)) \<noteq> free (lk s) \<or> curr_user (lk (mon_step t s)) \<noteq> curr_user (lk s)
   \<Longrightarrow> lk_view_of (mpc s t) \<noteq> Any \<and> lk_guarded (mpc s t)"
  by (cases "mpc s t")
     (auto simp add: mon_step_def mon_aux_defs split: option.splits list.splits if_splits)

lemma mon_field_inv_step:
  assumes "mon_lock_inv s" and "mon_field_inv s"
  shows "mon_field_inv (mon_step t s)"
proof -
  have H: "(lock_lock (lk s) = Some u) = lk_guarded (mpc s u)" for u
    using assms(1) by (simp add: mon_lock_inv_def)
  have E: "lk_sees (lk_view_of (mpc s u)) u (lk s)" for u
    using assms(2) by (simp add: mon_field_inv_def)
  have M: "(\<exists>u. lk_midway (mpc s u)) \<or> free (lk s) = (curr_user (lk s) = None)"
    using assms(2) by (simp add: mon_field_inv_def)
  have own: "lk_sees (lk_view_of (mpc (mon_step t s) t)) t (lk (mon_step t s))"
    using E[of t]
    by (cases "mpc s t")
       (auto simp add: mon_step_def mon_aux_defs lock_do_i_hold_def lk_view_of_caller
          split: option.splits list.splits caller.splits if_splits)
  have other: "lk_sees (lk_view_of (mpc (mon_step t s) u)) u (lk (mon_step t s))"
    if "u \<noteq> t" for u
  proof -
    have v: "lk_view_of (mpc (mon_step t s) u) = lk_view_of (mpc s u)"
      using that mon_step_other [of u t s] by (auto simp: woken_pc_views)
    show ?thesis
    proof (cases "free (lk (mon_step t s)) = free (lk s) \<and>
        curr_user (lk (mon_step t s)) = curr_user (lk s)")
      case True
      with E[of u] v show ?thesis
        by (cases "lk_view_of (mpc s u)") simp_all
    next
      case False
      then have g: "lk_view_of (mpc s t) \<noteq> Any" "lk_guarded (mpc s t)"
        using mon_step_fields [of t s] by auto
      with H[of t] H[of u] that have "\<not> lk_guarded (mpc s u)" by auto
      then have "lk_view_of (mpc s u) = Any \<or> lk_view_of (mpc s u) = Owner"
        using lk_view_guarded by blast
      then show ?thesis
      proof
        assume "lk_view_of (mpc s u) = Any"
        with v show ?thesis by simp
      next
        assume o: "lk_view_of (mpc s u) = Owner"
        with E[of u] have "free (lk s) = False" "curr_user (lk s) = Some u" by simp_all
        with E[of t] that False show ?thesis
          by (cases "mpc s t")
            (auto simp add: mon_step_def mon_aux_defs split: option.splits list.splits if_splits)
      qed
    qed
  qed
  have mid: "(\<exists>u. lk_midway (mpc (mon_step t s) u)) \<or>
      free (lk (mon_step t s)) = (curr_user (lk (mon_step t s)) = None)"
  proof (cases "lk_midway (mpc (mon_step t s) t)")
    case True
    then show ?thesis by blast
  next
    case False
    show ?thesis
    proof (cases "lk_midway (mpc s t)")
      case True
      with E[of t] have "free (lk (mon_step t s)) = (curr_user (lk (mon_step t s)) = None)"
        by (cases "mpc s t") (auto simp add: mon_step_def mon_aux_defs)
      then show ?thesis by simp
    next
      case nm: False
      from False nm have same: "free (lk (mon_step t s)) = free (lk s)"
        "curr_user (lk (mon_step t s)) = curr_user (lk s)"
        by (cases "mpc s t";
            auto simp add: mon_step_def mon_aux_defs split: option.splits list.splits if_splits)+
      from M show ?thesis
      proof
        assume "\<exists>u. lk_midway (mpc s u)"
        then obtain u where u: "lk_midway (mpc s u)" by blast
        with nm have "u \<noteq> t" by auto
        with u have "lk_midway (mpc (mon_step t s) u)"
          using mon_step_other [of u t s] by (auto simp: woken_pc_views)
        then show ?thesis by blast
      next
        assume "free (lk s) = (curr_user (lk s) = None)"
        with same show ?thesis by simp
      qed
    qed
  qed
  show ?thesis
    unfolding mon_field_inv_def
  proof (intro conjI allI)
    fix u
    show "lk_sees (lk_view_of (mpc (mon_step t s) u)) u (lk (mon_step t s))"
      using own other [of u] by (cases "u = t") simp_all
  next
    show "(\<exists>t'. lk_midway (mpc (mon_step t s) t')) \<or>
      free (lk (mon_step t s)) = (curr_user (lk (mon_step t s)) = None)"
      using mid .
  qed
qed

lemma woken_pc_asleep:
  "is_A_asleep (woken_pc p) = False" "(woken_pc p = W_asleep) = False"
  by (cases p; simp)+

lemma woken_pc_other:
  "\<not> is_A_asleep p \<Longrightarrow> p \<noteq> W_asleep \<Longrightarrow> woken_pc p = p"
  by (cases p) simp_all

lemma mon_sleep_inv_step:
  assumes "mon_sleep_inv s"
  shows "mon_sleep_inv (mon_step t s)"
proof -
  have DL: "distinct (lock_wchan (lk s))"
    and HL: "(u \<in> set (lock_wchan (lk s))) = is_A_asleep (mpc s u)"
    and DC: "distinct (control_wchan (cond s))"
    and HC: "(u \<in> set (control_wchan (cond s))) = (mpc s u = W_asleep)" for u
    using assms by (simp_all add: mon_sleep_inv_def)
  have 1: "distinct (lock_wchan (lk (mon_step t s)))"
    using DL HL[of t]
    by (cases "mpc s t")
       (auto simp add: mon_step_def mon_aux_defs split: option.splits list.splits)
  have 2: "distinct (control_wchan (cond (mon_step t s)))"
    using DC HC[of t]
    by (cases "mpc s t")
       (auto simp add: mon_step_def mon_aux_defs split: option.splits list.splits)
  have 3: "(u \<in> set (lock_wchan (lk (mon_step t s)))) = is_A_asleep (mpc (mon_step t s) u)" for u
  proof (cases "\<exists>c. mpc s t = R228 c")
    case True
    then obtain c where c: "mpc s t = R228 c" by blast
    show ?thesis
    proof (cases "lock_wchan (lk s)")
      case Nil
      with c HL[of u] show ?thesis
        by (simp add: mon_step_def mon_aux_defs)
    next
      case (Cons w ws)
      with DL have "w \<notin> set ws" by simp
      with c Cons HL[of u] HL[of w] show ?thesis
        by (cases "u = t"; cases "u = w")
           (auto simp add: mon_step_def mon_aux_defs woken_pc_asleep)
    qed
  next
    case False
    have nt: "\<not> is_A_asleep (mpc s t) \<Longrightarrow> mpc s t \<noteq> W_asleep \<Longrightarrow> t \<notin> set ws
        \<Longrightarrow> mon_wake ws (mpc s) t = mpc s t" for ws
      by (simp add: mon_wake_apply)
    from False HL[of u] HL[of t] HC[of u] show ?thesis
      by (cases "mpc s t"; cases "u = t")
        (auto simp add: mon_step_def mon_aux_defs mon_wake_apply
           elim: is_A_asleep.elims
           split: option.splits list.splits caller.splits)
  qed
  have 4: "(u \<in> set (control_wchan (cond (mon_step t s)))) = (mpc (mon_step t s) u = W_asleep)" for u
  proof (cases "mpc s t = S329")
    case True
    show ?thesis
    proof (cases "control_wchan (cond s)")
      case Nil
      with True HC[of u] show ?thesis
        by (simp add: mon_step_def mon_aux_defs)
    next
      case (Cons w ws)
      with DC have "w \<notin> set ws" by simp
      with True Cons HC[of u] HC[of w] show ?thesis
        by (cases "u = t"; cases "u = w")
           (auto simp add: mon_step_def mon_aux_defs woken_pc_asleep)
    qed
  next
    case False
    with HC[of u] HC[of t] HL[of u] show ?thesis
      by (cases "mpc s t"; cases "u = t")
        (auto simp add: mon_step_def mon_aux_defs mon_wake_apply woken_pc_asleep
           elim: is_A_asleep.elims
           split: option.splits list.splits caller.splits)
  qed
  show ?thesis
    using 1 2 3 4 by (simp add: mon_sleep_inv_def)
qed

lemma mon_entry_views:
  "lk_guarded (mon_entry c) = False" "cv_guarded (mon_entry c) = False"
  "lk_view_of (mon_entry c) = Any" "lk_midway (mon_entry c) = False"
  "is_A_asleep (mon_entry c) = False" "(mon_entry c = W_asleep) = False"
  by (cases c; simp)+

lemma mon_inv_call:
  assumes "mon_inv s"
  shows "mon_inv (mon_call t c s)"
proof (cases "mpc s t = MonIdle")
  case False
  with assms show ?thesis by (simp add: mon_call_def)
next
  case True
  have "mon_lock_inv (mon_call t c s)"
    using assms True
    by (auto simp: mon_inv_def mon_lock_inv_def mon_call_def mon_goto_def mon_entry_views)
  moreover have "mon_cv_inv (mon_call t c s)"
    using assms True
    by (auto simp: mon_inv_def mon_cv_inv_def mon_call_def mon_goto_def mon_entry_views)
  moreover have "mon_sleep_inv (mon_call t c s)"
    using assms True
    by (auto simp: mon_inv_def mon_sleep_inv_def mon_call_def mon_goto_def mon_entry_views)
  moreover have "mon_field_inv (mon_call t c s)"
  proof -
    have E: "lk_sees (lk_view_of (mpc s u)) u (lk s)" for u
      using assms by (simp add: mon_inv_def mon_field_inv_def)
    have M: "(\<exists>u. lk_midway (mpc s u)) \<or> free (lk s) = (curr_user (lk s) = None)"
      using assms by (simp add: mon_inv_def mon_field_inv_def)
    have "lk_sees (lk_view_of (mpc (mon_call t c s) u)) u (lk (mon_call t c s))" for u
      using E[of u] True by (simp add: mon_call_def mon_goto_def mon_entry_views)
    moreover have "(\<exists>u. lk_midway (mpc (mon_call t c s) u)) \<or>
        free (lk (mon_call t c s)) = (curr_user (lk (mon_call t c s)) = None)"
      using M
    proof
      assume "\<exists>u. lk_midway (mpc s u)"
      then obtain u where u: "lk_midway (mpc s u)" by blast
      with True have "u \<noteq> t" by auto
      with u True have "lk_midway (mpc (mon_call t c s) u)"
        by (simp add: mon_call_def mon_goto_def)
      then show ?thesis by blast
    next
      assume "free (lk s) = (curr_user (lk s) = None)"
      then show ?thesis using True by (simp add: mon_call_def mon_goto_def)
    qed
    ultimately show ?thesis by (simp add: mon_field_inv_def)
  qed
  ultimately show ?thesis by (simp add: mon_inv_def)
qed

lemma mon_inv_fire:
  assumes "mon_inv s"
  shows "mon_inv (mon_fire e s)"
proof (cases "m_panicked s")
  case True
  with assms show ?thesis by (simp add: mon_fire_def)
next
  case False
  show ?thesis
  proof (cases e)
    case (MCall t c)
    with False assms show ?thesis by (simp add: mon_fire_def mon_inv_call)
  next
    case (MStep t)
    with False assms show ?thesis
      by (simp add: mon_fire_def mon_inv_def mon_lock_inv_step mon_cv_inv_step
          mon_field_inv_step mon_sleep_inv_step)
  next
    case (MIrq t b)
    with False assms show ?thesis
      by (simp add: mon_fire_def mon_inv_def mon_lock_inv_def mon_cv_inv_def
          mon_field_inv_def mon_sleep_inv_def)
  qed
qed

lemma mon_inv_run: "mon_inv s \<Longrightarrow> mon_inv (mon_run es s)"
  by (induction es arbitrary: s) (simp_all add: mon_inv_fire)

lemma mon_inv_reachable: "mon_inv (mon_run es (mon_boot ln cn))"
  by (simp add: mon_inv_run mon_inv_boot)

lemma mon_run_append: "mon_run (xs @ ys) s = mon_run ys (mon_run xs s)"
  by (induction xs arbitrary: s) simp_all

lemma mon_fire_panicked: "m_panicked s \<Longrightarrow> mon_fire e s = s"
  by (simp add: mon_fire_def)

lemma mon_run_panicked: "m_panicked s \<Longrightarrow> mon_run es s = s"
  by (induction es arbitrary: s) (simp_all add: mon_fire_panicked)

lemma woken_pc_guarded: "lk_guarded p \<or> cv_guarded p \<Longrightarrow> woken_pc p = p"
  by (cases p) auto

lemma mon_fire_own_pc:
  assumes "e \<noteq> MStep t"
  shows "mpc (mon_fire e s) t = mpc s t \<or> mpc (mon_fire e s) t = woken_pc (mpc s t) \<or>
         (\<exists>c. e = MCall t c \<and> mpc s t = MonIdle)"
proof (cases "m_panicked s")
  case True
  then show ?thesis by (simp add: mon_fire_panicked)
next
  case False
  show ?thesis
  proof (cases e)
    case (MCall u c)
    with False show ?thesis
      by (cases "u = t") (auto simp: mon_fire_def mon_call_def mon_goto_def)
  next
    case (MStep u)
    with assms have "t \<noteq> u" by auto
    with MStep False mon_step_other [of t u s] show ?thesis
      by (auto simp: mon_fire_def)
  next
    case (MIrq u b)
    with False show ?thesis by (simp add: mon_fire_def)
  qed
qed

lemma mon_lock_frame_fire:
  assumes "mon_lock_inv s" and "lock_lock (lk s) = Some t" and "e \<noteq> MStep t"
  shows "lk (mon_fire e s) = lk s \<and> mpc (mon_fire e s) t = mpc s t"
proof -
  have H: "(lock_lock (lk s) = Some u) = lk_guarded (mpc s u)" for u
    using assms(1) by (simp add: mon_lock_inv_def)
  from H[of t] assms(2) have gt: "lk_guarded (mpc s t)" by simp
  then have "mpc s t \<noteq> MonIdle" by auto
  with mon_fire_own_pc [OF assms(3), of s] gt
  have pc: "mpc (mon_fire e s) t = mpc s t"
    by (auto simp: woken_pc_guarded)
  have "lk (mon_fire e s) = lk s"
  proof (cases "m_panicked s")
    case True
    then show ?thesis by (simp add: mon_fire_panicked)
  next
    case False
    show ?thesis
    proof (cases e)
      case (MCall u c)
      with False show ?thesis by (simp add: mon_fire_def mon_call_def mon_goto_def)
    next
      case (MStep u)
      with assms(3) have "u \<noteq> t" by auto
      with H[of u] assms(2) have "\<not> lk_guarded (mpc s u)" by simp
      with MStep False assms(2) show ?thesis
        by (cases "mpc s u")
           (auto simp: mon_fire_def mon_step_def mon_aux_defs split: list.splits option.splits)
    next
      case (MIrq u b)
      with False show ?thesis by (simp add: mon_fire_def)
    qed
  qed
  with pc show ?thesis by simp
qed

lemma mon_cv_frame_fire:
  assumes "mon_cv_inv s" and "control_spinlock (cond s) = Some t" and "e \<noteq> MStep t"
  shows "cond (mon_fire e s) = cond s \<and> mpc (mon_fire e s) t = mpc s t"
proof -
  have H: "(control_spinlock (cond s) = Some u) = cv_guarded (mpc s u)" for u
    using assms(1) by (simp add: mon_cv_inv_def)
  from H[of t] assms(2) have gt: "cv_guarded (mpc s t)" by simp
  then have "mpc s t \<noteq> MonIdle" by auto
  with mon_fire_own_pc [OF assms(3), of s] gt
  have pc: "mpc (mon_fire e s) t = mpc s t"
    by (auto simp: woken_pc_guarded)
  have "cond (mon_fire e s) = cond s"
  proof (cases "m_panicked s")
    case True
    then show ?thesis by (simp add: mon_fire_panicked)
  next
    case False
    show ?thesis
    proof (cases e)
      case (MCall u c)
      with False show ?thesis by (simp add: mon_fire_def mon_call_def mon_goto_def)
    next
      case (MStep u)
      with assms(3) have "u \<noteq> t" by auto
      with H[of u] assms(2) have "\<not> cv_guarded (mpc s u)" by simp
      with MStep False assms(2) show ?thesis
        by (cases "mpc s u")
           (auto simp: mon_fire_def mon_step_def mon_aux_defs split: list.splits option.splits)
    next
      case (MIrq u b)
      with False show ?thesis by (simp add: mon_fire_def)
    qed
  qed
  with pc show ?thesis by simp
qed

lemma mon_lock_frame_run:
  assumes "mon_inv s" and "lock_lock (lk s) = Some t" and "MStep t \<notin> set es"
  shows "lk (mon_run es s) = lk s \<and> mpc (mon_run es s) t = mpc s t"
  using assms
proof (induction es arbitrary: s)
  case Nil
  then show ?case by simp
next
  case (Cons e es)
  from Cons.prems have e: "e \<noteq> MStep t" and es: "MStep t \<notin> set es" by auto
  from Cons.prems have g: "mon_lock_inv s" by (simp add: mon_inv_def)
  note f = mon_lock_frame_fire [OF g Cons.prems(2) e]
  have "mon_inv (mon_fire e s)" using Cons.prems(1) by (rule mon_inv_fire)
  moreover have "lock_lock (lk (mon_fire e s)) = Some t" using f Cons.prems(2) by simp
  ultimately show ?case using Cons.IH [of "mon_fire e s"] es f by simp
qed

lemma mon_cv_frame_run:
  assumes "mon_inv s" and "control_spinlock (cond s) = Some t" and "MStep t \<notin> set es"
  shows "cond (mon_run es s) = cond s \<and> mpc (mon_run es s) t = mpc s t"
  using assms
proof (induction es arbitrary: s)
  case Nil
  then show ?case by simp
next
  case (Cons e es)
  from Cons.prems have e: "e \<noteq> MStep t" and es: "MStep t \<notin> set es" by auto
  from Cons.prems have g: "mon_cv_inv s" by (simp add: mon_inv_def)
  note f = mon_cv_frame_fire [OF g Cons.prems(2) e]
  have "mon_inv (mon_fire e s)" using Cons.prems(1) by (rule mon_inv_fire)
  moreover have "control_spinlock (cond (mon_fire e s)) = Some t" using f Cons.prems(2) by simp
  ultimately show ?case using Cons.IH [of "mon_fire e s"] es f by simp
qed

text \<open>How ownership changes.\<close>

lemma mon_owner_fire:
  assumes "mon_inv s"
  shows "(lock_do_i_hold (lk s) t \<and> \<not> lock_do_i_hold (lk (mon_fire e s)) t \<longrightarrow>
            e = MStep t \<and> (\<exists>c. mpc s t = R226 c)) \<and>
         (\<not> lock_do_i_hold (lk s) t \<and> lock_do_i_hold (lk (mon_fire e s)) t \<longrightarrow>
            e = MStep t \<and> (\<exists>c. mpc s t = A213 c) \<and> (\<forall>u. \<not> lock_do_i_hold (lk s) u))"
proof (cases "m_panicked s")
  case True
  then show ?thesis by (simp add: mon_fire_panicked)
next
  case False
  have E: "lk_sees (lk_view_of (mpc s u)) u (lk s)" for u
    using assms by (simp add: mon_inv_def mon_field_inv_def)
  show ?thesis
  proof (cases e)
    case (MCall u c)
    with False show ?thesis by (simp add: mon_fire_def mon_call_def mon_goto_def)
  next
    case (MStep u)
    with False E[of u] show ?thesis
      by (cases "mpc s u")
         (auto simp: mon_fire_def mon_step_def mon_aux_defs lock_do_i_hold_def
            split: list.splits option.splits if_splits)
  next
    case (MIrq u b)
    with False show ?thesis by (simp add: mon_fire_def)
  qed
qed

lemmas mon_eval = mon_fire_def mon_call_def mon_step_def mon_goto_def mon_panic_def
  mon_boot_def spinlock_init_def spinlock_acquire_def spinlock_release_def
  wchan_sleep_def wchan_wakeone_def wchan_wakeall_def acquire_lock_lock_def
  acquire_control_spinlock_def lock_do_i_hold_def

text \<open>
  Claim C2. In every state reachable by any interleaving of the lock operations,
  \<open>lock_do_i_hold\<close> is true for at most one thread. A thread stops being the owner only
  by its own statement at line 226 of \<open>lock_release\<close>, and a thread becomes the owner only
  by its own statement at line 213 of \<open>lock_acquire\<close>, taken in a state where no thread
  is the owner.
\<close>

theorem lock_mutual_exclusion:
  assumes "s = mon_run es (mon_boot lname cname)"
  shows "(lock_do_i_hold (lk s) t1 \<and> lock_do_i_hold (lk s) t2 \<longrightarrow> t1 = t2) \<and>
         (lock_do_i_hold (lk s) t \<and> \<not> lock_do_i_hold (lk (mon_fire e s)) t \<longrightarrow>
            e = MStep t \<and> (\<exists>c. mpc s t = R226 c)) \<and>
         (\<not> lock_do_i_hold (lk s) t \<and> lock_do_i_hold (lk (mon_fire e s)) t \<longrightarrow>
            e = MStep t \<and> (\<exists>c. mpc s t = A213 c) \<and> (\<forall>u. \<not> lock_do_i_hold (lk s) u))"
proof -
  have inv: "mon_inv s"
    unfolding assms by (rule mon_inv_reachable)
  have "lock_do_i_hold (lk s) t1 \<and> lock_do_i_hold (lk s) t2 \<longrightarrow> t1 = t2"
    by (auto simp: lock_do_i_hold_def split: if_splits)
  with mon_owner_fire [OF inv, of t e] show ?thesis by blast
qed

theorem lock_mutual_exclusion_witness:
  "lock_do_i_hold (lk (mon_run run_acquire (mon_boot ''l'' ''c''))) 0 \<and>
   lock_do_i_hold (lk (mon_fire (MStep 1)
     (mon_run (run_acquire @ [MCall 1 (OpAcquire PTR)]) (mon_boot ''l'' ''c'')))) 0 \<and>
   mpc (mon_run (run_release_entry @ [MStep 0]) (mon_boot ''l'' ''c'')) 0 = R226 Client \<and>
   lock_do_i_hold (lk (mon_run (run_release_entry @ [MStep 0]) (mon_boot ''l'' ''c''))) 0 \<and>
   \<not> lock_do_i_hold (lk (mon_fire (MStep 0)
     (mon_run (run_release_entry @ [MStep 0]) (mon_boot ''l'' ''c'')))) 0 \<and>
   mpc (mon_run run_acquire_midway (mon_boot ''l'' ''c'')) 0 = A213 Client \<and>
   \<not> lock_do_i_hold (lk (mon_run run_acquire_midway (mon_boot ''l'' ''c''))) 0 \<and>
   lock_do_i_hold (lk (mon_fire (MStep 0)
     (mon_run run_acquire_midway (mon_boot ''l'' ''c'')))) 0"
  using
    lock_mutual_exclusion [of "mon_run (run_acquire @ [MCall 1 (OpAcquire PTR)]) (mon_boot ''l'' ''c'')"
      "run_acquire @ [MCall 1 (OpAcquire PTR)]" "''l''" "''c''" 0 0 0 "MStep 1"]
    lock_mutual_exclusion
      [of "mon_run (run_release_entry @ [MStep 0]) (mon_boot ''l'' ''c'')"
      "run_release_entry @ [MStep 0]" "''l''" "''c''" 0 0 0 "MStep 0"]
    lock_mutual_exclusion [of "mon_run run_acquire_midway (mon_boot ''l'' ''c'')"
      run_acquire_midway "''l''" "''c''" 0 0 0 "MStep 0"]
  by (simp add: run_release_entry_def run_acquire_def run_acquire_midway_def mon_eval)

lemma lk_midway_guarded: "lk_midway p \<Longrightarrow> lk_guarded p"
  by (cases p) simp_all

lemma mon_fields_fire:
  assumes "mon_inv s"
    and "free (lk (mon_fire e s)) \<noteq> free (lk s) \<or>
         curr_user (lk (mon_fire e s)) \<noteq> curr_user (lk s)"
  shows "\<exists>t. e = MStep t \<and> lock_lock (lk s) = Some t \<and> lock_lock (lk (mon_fire e s)) = Some t"
proof -
  have np: "\<not> m_panicked s"
    using assms(2) by (auto simp: mon_fire_panicked)
  have H: "(lock_lock (lk s) = Some u) = lk_guarded (mpc s u)" for u
    using assms(1) by (simp add: mon_inv_def mon_lock_inv_def)
  show ?thesis
  proof (cases e)
    case (MCall u c)
    with np assms(2) show ?thesis
      by (auto simp: mon_fire_def mon_call_def mon_goto_def split: if_splits)
  next
    case (MStep u)
    with np assms(2) H[of u] show ?thesis
      by (cases "mpc s u")
         (auto simp: mon_fire_def mon_step_def mon_aux_defs
            split: list.splits option.splits if_splits)
  next
    case (MIrq u b)
    with np assms(2) show ?thesis by (simp add: mon_fire_def)
  qed
qed

text \<open>
  Claim C5, as stated, fails between the two assignments of lines 212 and 213: thread 0
  has written itself into \<open>curr_user\<close> while \<open>free\<close> is still true.
\<close>

theorem lock_free_iff_no_owner_counterexample:
  "\<not> ((free (lk (mon_run run_acquire_midway (mon_boot ''l'' ''c''))) = True) =
       (curr_user (lk (mon_run run_acquire_midway (mon_boot ''l'' ''c''))) = None))"
  by (simp add: run_acquire_midway_def mon_eval)

text \<open>
  Claim C5, amended. \<open>lock_create\<close> establishes \<open>free = true\<close> and
  \<open>curr_user = NULL\<close>. In every reachable state in which no thread holds the guard
  \<open>lock_lock\<close>, \<open>free\<close> is true iff \<open>curr_user\<close> is \<open>NULL\<close>; the two disagree only
  while the thread that holds the guard stands between the two assignments of lines
  212-213 or of lines 226-227. Every change of \<open>free\<close> or \<open>curr_user\<close> is a step of the
  thread that holds the guard. When the lock is held, \<open>curr_user\<close> is exactly the thread
  whose \<open>lock_release\<close> passes the assertion of line 224.
\<close>

theorem lock_free_iff_no_owner_outside_guard:
  assumes "s = mon_run es (mon_boot lname cname)"
  shows "free (lk (mon_boot lname cname)) = True \<and>
         curr_user (lk (mon_boot lname cname)) = None \<and>
         (lock_lock (lk s) = None \<longrightarrow> (free (lk s) = True) = (curr_user (lk s) = None)) \<and>
         ((free (lk s) = True) \<noteq> (curr_user (lk s) = None) \<longrightarrow>
            (\<exists>t c. lock_lock (lk s) = Some t \<and> (mpc s t = A213 c \<or> mpc s t = R227 c))) \<and>
         (free (lk (mon_fire e s)) \<noteq> free (lk s) \<or>
          curr_user (lk (mon_fire e s)) \<noteq> curr_user (lk s) \<longrightarrow>
            (\<exists>t. e = MStep t \<and> lock_lock (lk s) = Some t \<and>
                 lock_lock (lk (mon_fire e s)) = Some t)) \<and>
         (free (lk s) = False \<and> \<not> m_panicked s \<and> mpc s t = R224 c \<longrightarrow>
            m_panicked (mon_step t s) = (curr_user (lk s) \<noteq> Some t))"
proof -
  have inv: "mon_inv s"
    unfolding assms by (rule mon_inv_reachable)
  have H: "(lock_lock (lk s) = Some u) = lk_guarded (mpc s u)" for u
    using inv by (simp add: mon_inv_def mon_lock_inv_def)
  have M: "(\<exists>u. lk_midway (mpc s u)) \<or> free (lk s) = (curr_user (lk s) = None)"
    using inv by (simp add: mon_inv_def mon_field_inv_def)
  have 1: "(free (lk s) = True) \<noteq> (curr_user (lk s) = None) \<longrightarrow>
      (\<exists>t c. lock_lock (lk s) = Some t \<and> (mpc s t = A213 c \<or> mpc s t = R227 c))"
  proof
    assume "(free (lk s) = True) \<noteq> (curr_user (lk s) = None)"
    with M obtain u where u: "lk_midway (mpc s u)" by auto
    then have "lock_lock (lk s) = Some u" using H[of u] lk_midway_guarded by blast
    moreover from u have "\<exists>c. mpc s u = A213 c \<or> mpc s u = R227 c"
      by (cases "mpc s u") simp_all
    ultimately show "\<exists>t c. lock_lock (lk s) = Some t \<and> (mpc s t = A213 c \<or> mpc s t = R227 c)"
      by blast
  qed
  then have 2: "lock_lock (lk s) = None \<longrightarrow> (free (lk s) = True) = (curr_user (lk s) = None)"
    by auto
  have 3: "free (lk s) = False \<and> \<not> m_panicked s \<and> mpc s t = R224 c \<longrightarrow>
      m_panicked (mon_step t s) = (curr_user (lk s) \<noteq> Some t)"
    by (simp add: mon_step_def mon_aux_defs lock_do_i_hold_def)
  show ?thesis
    using 1 2 3 mon_fields_fire [OF inv, of e]
    by (simp add: mon_boot_def)
qed

theorem lock_free_iff_no_owner_outside_guard_witness:
  "lock_lock (lk (mon_run run_acquire (mon_boot ''l'' ''c''))) = None \<and>
   free (lk (mon_run run_acquire (mon_boot ''l'' ''c''))) = False \<and>
   curr_user (lk (mon_run run_acquire (mon_boot ''l'' ''c''))) = Some 0 \<and>
   lock_lock (lk (mon_run run_acquire_midway (mon_boot ''l'' ''c''))) = Some 0 \<and>
   mpc (mon_run run_acquire_midway (mon_boot ''l'' ''c'')) 0 = A213 Client \<and>
   free (lk (mon_fire (MStep 0) (mon_run run_acquire_midway (mon_boot ''l'' ''c'')))) = False \<and>
   mpc (mon_run (run_acquire @ [MCall 1 (OpRelease PTR), MStep 1]) (mon_boot ''l'' ''c'')) 1
     = R224 Client \<and>
   m_panicked (mon_step 1
     (mon_run (run_acquire @ [MCall 1 (OpRelease PTR), MStep 1]) (mon_boot ''l'' ''c'')))"
  using
    lock_free_iff_no_owner_outside_guard [of "mon_run run_acquire (mon_boot ''l'' ''c'')"
      run_acquire "''l''" "''c''" "MStep 0" 0 Client]
    lock_free_iff_no_owner_outside_guard [of "mon_run run_acquire_midway (mon_boot ''l'' ''c'')"
      run_acquire_midway "''l''" "''c''" "MStep 0" 0 Client]
    lock_free_iff_no_owner_outside_guard
      [of "mon_run (run_acquire @ [MCall 1 (OpRelease PTR), MStep 1]) (mon_boot ''l'' ''c'')"
      "run_acquire @ [MCall 1 (OpRelease PTR), MStep 1]" "''l''" "''c''" "MStep 1" 1 Client]
  by (simp add: run_acquire_def run_acquire_midway_def mon_eval)

lemma mon_pc_frame_run:
  assumes "MStep t \<notin> set es" and "mpc s t \<noteq> MonIdle" and "woken_pc (mpc s t) = mpc s
    t"
  shows "mpc (mon_run es s) t = mpc s t"
  using assms
proof (induction es arbitrary: s)
  case Nil
  then show ?case by simp
next
  case (Cons e es)
  from Cons.prems have e: "e \<noteq> MStep t" and es: "MStep t \<notin> set es" by auto
  from mon_fire_own_pc [OF e, of s] Cons.prems(2,3)
  have f: "mpc (mon_fire e s) t = mpc s t" by auto
  with Cons.IH [of "mon_fire e s"] es Cons.prems(2,3) show ?case by simp
qed

lemma mon_owner_frame_run:
  assumes "mon_inv s" and "MStep t \<notin> set es"
  shows "lock_do_i_hold (lk (mon_run es s)) t = lock_do_i_hold (lk s) t"
  using assms
proof (induction es arbitrary: s)
  case Nil
  then show ?case by simp
next
  case (Cons e es)
  from Cons.prems have e: "e \<noteq> MStep t" and es: "MStep t \<notin> set es" by auto
  from mon_owner_fire [OF Cons.prems(1), of t e] e
  have f: "lock_do_i_hold (lk (mon_fire e s)) t = lock_do_i_hold (lk s) t" by blast
  have "mon_inv (mon_fire e s)" using Cons.prems(1) by (rule mon_inv_fire)
  with Cons.IH [of "mon_fire e s"] es f show ?case by simp
qed

lemma mon_irq_frame_fire:
  assumes "e \<noteq> MIrq t True" and "m_in_interrupt s t = False"
  shows "m_in_interrupt (mon_fire e s) t = False"
proof (cases "m_panicked s")
  case True
  with assms(2) show ?thesis by (simp add: mon_fire_panicked)
next
  case False
  show ?thesis
  proof (cases e)
    case (MCall u c)
    with False assms(2) show ?thesis
      by (auto simp: mon_fire_def mon_call_def mon_goto_def)
  next
    case (MStep u)
    with False assms(2) show ?thesis
      by (cases "mpc s u")
         (auto simp: mon_fire_def mon_step_def mon_aux_defs split: option.splits list.splits)
  next
    case (MIrq u b)
    with False assms show ?thesis by (auto simp: mon_fire_def)
  qed
qed

lemma mon_irq_frame_run:
  assumes "MIrq t True \<notin> set es" and "m_in_interrupt s t = False"
  shows "m_in_interrupt (mon_run es s) t = False"
  using assms
proof (induction es arbitrary: s)
  case Nil
  then show ?case by simp
next
  case (Cons e es)
  from Cons.prems have e: "e \<noteq> MIrq t True" and es: "MIrq t True \<notin> set es" by auto
  from Cons.IH [OF es mon_irq_frame_fire [OF e Cons.prems(2)]] show ?case by simp
qed

text \<open>What a call leaves behind once the other threads have had their events.\<close>

lemma mon_call_frame:
  assumes inv: "mon_inv s" and np: "\<not> m_panicked s" and pc: "mpc s t = MonIdle"
    and a0: "mon_aside t es0 (mon_fire (MCall t op) s)"
    and en: "woken_pc (mon_entry op) = mon_entry op" "mon_entry op \<noteq> MonIdle"
  shows "mon_inv (mon_run es0 (mon_fire (MCall t op) s))"
    and "\<not> m_panicked (mon_run es0 (mon_fire (MCall t op) s))"
    and "mpc (mon_run es0 (mon_fire (MCall t op) s)) t = mon_entry op"
    and "lock_do_i_hold (lk (mon_run es0 (mon_fire (MCall t op) s))) t = lock_do_i_hold (lk s) t"
    and "MIrq t True \<notin> set es0 \<Longrightarrow> m_in_interrupt s t = False \<Longrightarrow>
           m_in_interrupt (mon_run es0 (mon_fire (MCall t op) s)) t = False"
proof -
  define c where "c = mon_fire (MCall t op) s"
  from a0 have o0: "MStep t \<notin> set es0" and q0: "m_panicked (mon_run es0 c) = m_panicked c"
    by (simp_all add: mon_aside_def c_def)
  have c: "mpc c t = mon_entry op" "\<not> m_panicked c" "lk c = lk s"
    "m_in_interrupt c = m_in_interrupt s"
    using np pc by (simp_all add: c_def mon_fire_def mon_call_def mon_goto_def)
  have inv_c: "mon_inv c" unfolding c_def using inv by (rule mon_inv_fire)
  show "mon_inv (mon_run es0 (mon_fire (MCall t op) s))"
    using inv_c unfolding c_def by (rule mon_inv_run)
  show "\<not> m_panicked (mon_run es0 (mon_fire (MCall t op) s))"
    using q0 c by (simp add: c_def)
  show "mpc (mon_run es0 (mon_fire (MCall t op) s)) t = mon_entry op"
    using mon_pc_frame_run [OF o0, of c] c en by (simp add: c_def)
  show "lock_do_i_hold (lk (mon_run es0 (mon_fire (MCall t op) s))) t = lock_do_i_hold (lk s) t"
    using mon_owner_frame_run [OF inv_c o0] c by (simp add: c_def)
  show "m_in_interrupt (mon_run es0 (mon_fire (MCall t op) s)) t = False"
    if "MIrq t True \<notin> set es0" "m_in_interrupt s t = False"
    using mon_irq_frame_run [OF that(1), of c] c that(2) by (simp add: c_def)
qed

text \<open>One statement of \<open>t\<close> followed by events of the others.\<close>

lemma mon_turn:
  assumes inv: "mon_inv s" and as: "mon_aside t es (mon_fire (MStep t) s)"
  shows "mon_inv (mon_run es (mon_fire (MStep t) s))"
    and "m_panicked (mon_run es (mon_fire (MStep t) s)) = m_panicked (mon_fire (MStep t) s)"
    and "lock_do_i_hold (lk (mon_run es (mon_fire (MStep t) s))) t
           = lock_do_i_hold (lk (mon_fire (MStep t) s)) t"
    and "mpc (mon_fire (MStep t) s) t \<noteq> MonIdle \<Longrightarrow>
         woken_pc (mpc (mon_fire (MStep t) s) t) = mpc (mon_fire (MStep t) s) t \<Longrightarrow>
           mpc (mon_run es (mon_fire (MStep t) s)) t = mpc (mon_fire (MStep t) s) t"
    and "lock_lock (lk (mon_fire (MStep t) s)) = Some t \<Longrightarrow>
           lk (mon_run es (mon_fire (MStep t) s)) = lk (mon_fire (MStep t) s)"
    and "control_spinlock (cond (mon_fire (MStep t) s)) = Some t \<Longrightarrow>
           cond (mon_run es (mon_fire (MStep t) s)) = cond (mon_fire (MStep t) s)"
    and "MIrq t True \<notin> set es \<Longrightarrow> m_in_interrupt (mon_fire (MStep t) s) t =
      False \<Longrightarrow>
           m_in_interrupt (mon_run es (mon_fire (MStep t) s)) t = False"
proof -
  define a where "a = mon_fire (MStep t) s"
  from as have o: "MStep t \<notin> set es" and q: "m_panicked (mon_run es a) = m_panicked a"
    by (simp_all add: mon_aside_def a_def)
  have inv_a: "mon_inv a" unfolding a_def using inv by (rule mon_inv_fire)
  show "mon_inv (mon_run es (mon_fire (MStep t) s))"
    using inv_a unfolding a_def by (rule mon_inv_run)
  show "m_panicked (mon_run es (mon_fire (MStep t) s)) = m_panicked (mon_fire (MStep t) s)"
    using q by (simp add: a_def)
  show "lock_do_i_hold (lk (mon_run es (mon_fire (MStep t) s))) t
           = lock_do_i_hold (lk (mon_fire (MStep t) s)) t"
    using mon_owner_frame_run [OF inv_a o] by (simp add: a_def)
  show "mpc (mon_run es (mon_fire (MStep t) s)) t = mpc (mon_fire (MStep t) s) t"
    if "mpc (mon_fire (MStep t) s) t \<noteq> MonIdle"
      "woken_pc (mpc (mon_fire (MStep t) s) t) = mpc (mon_fire (MStep t) s) t"
    using mon_pc_frame_run [OF o, of a] that by (simp add: a_def)
  show "lk (mon_run es (mon_fire (MStep t) s)) = lk (mon_fire (MStep t) s)"
    if "lock_lock (lk (mon_fire (MStep t) s)) = Some t"
    using mon_lock_frame_run [OF inv_a _ o] that by (simp add: a_def)
  show "cond (mon_run es (mon_fire (MStep t) s)) = cond (mon_fire (MStep t) s)"
    if "control_spinlock (cond (mon_fire (MStep t) s)) = Some t"
    using mon_cv_frame_run [OF inv_a _ o] that by (simp add: a_def)
  show "m_in_interrupt (mon_run es (mon_fire (MStep t) s)) t = False"
    if "MIrq t True \<notin> set es" "m_in_interrupt (mon_fire (MStep t) s) t = False"
    using mon_irq_frame_run [OF that(1), of a] that(2) by (simp add: a_def)
qed

text \<open>\<open>lock_release\<close>, lines 223 and 224, for the owner and for another
  thread.\<close>

lemma mon_release_entry:
  assumes inv: "mon_inv s" and np: "\<not> m_panicked s" and pc: "mpc s t = R223 PTR c"
    and own: "lock_do_i_hold (lk s) t" and as: "mon_asides t [es1, es2] s"
  shows "mpc (mon_turns t [es1, es2] s) t = R225 c \<and>
         \<not> m_panicked (mon_turns t [es1, es2] s) \<and>
         lock_do_i_hold (lk (mon_turns t [es1, es2] s)) t \<and>
         (c = CvWait \<longrightarrow> cond (mon_turns t [es1, es2] s) = cond s)"
proof -
  define a where "a = mon_fire (MStep t) s"
  define a' where "a' = mon_run es1 a"
  define b where "b = mon_fire (MStep t) a'"
  define b' where "b' = mon_run es2 b"
  have run: "mon_turns t [es1, es2] s = b'"
    by (simp add: a_def a'_def b_def b'_def)
  from as have as1: "mon_aside t es1 (mon_fire (MStep t) s)"
    and as2: "mon_aside t es2 (mon_fire (MStep t) a')"
    by (simp_all add: a_def a'_def)
  have cg: "c = CvWait \<Longrightarrow> control_spinlock (cond s) = Some t"
    using inv pc by (simp add: mon_inv_def mon_cv_inv_def)
  have a: "mpc a t = R224 c" "\<not> m_panicked a" "lk a = lk s" "cond a = cond s"
    using np pc by (simp_all add: a_def mon_fire_def mon_step_def mon_goto_def)
  note ta = mon_turn [OF inv as1, folded a_def, folded a'_def]
  have fa: "mon_inv a'" "mpc a' t = R224 c" "\<not> m_panicked a'" "lock_do_i_hold (lk a') t"
    "c = CvWait \<Longrightarrow> cond a' = cond s"
    using ta a own cg by simp_all
  have b: "mpc b t = R225 c" "\<not> m_panicked b" "lk b = lk a'" "cond b = cond a'"
    using fa by (simp_all add: b_def mon_fire_def mon_step_def mon_goto_def)
  note tb = mon_turn [OF fa(1) as2, folded b_def, folded b'_def]
  have fb: "mpc b' t = R225 c" "\<not> m_panicked b'" "lock_do_i_hold (lk b') t"
    "c = CvWait \<Longrightarrow> cond b' = cond s"
    using tb b fa cg by simp_all
  show ?thesis unfolding run using fb by simp
qed

lemma mon_release_refused:
  assumes inv: "mon_inv s" and np: "\<not> m_panicked s" and pc: "mpc s t = R223 PTR c"
    and nown: "\<not> lock_do_i_hold (lk s) t" and as: "mon_asides t [es1] s"
  shows "mpc (mon_turns t [es1] s) t = R224 c \<and>
         \<not> m_panicked (mon_turns t [es1] s) \<and>
         \<not> lock_do_i_hold (lk (mon_turns t [es1] s)) t \<and>
         mon_fire (MStep t) (mon_turns t [es1] s) = (mon_turns t [es1] s)\<lparr>m_panicked :=
           True\<rparr>"
proof -
  define a where "a = mon_fire (MStep t) s"
  define a' where "a' = mon_run es1 a"
  have run: "mon_turns t [es1] s = a'"
    by (simp add: a_def a'_def)
  from as have as1: "mon_aside t es1 (mon_fire (MStep t) s)"
    by simp
  have a: "mpc a t = R224 c" "\<not> m_panicked a" "lk a = lk s"
    using np pc by (simp_all add: a_def mon_fire_def mon_step_def mon_goto_def)
  note ta = mon_turn [OF inv as1, folded a_def, folded a'_def]
  have fa: "mpc a' t = R224 c" "\<not> m_panicked a'" "\<not> lock_do_i_hold (lk a') t"
    using ta a nown by simp_all
  then have "mon_fire (MStep t) a' = a'\<lparr>m_panicked := True\<rparr>"
    by (simp add: mon_fire_def mon_step_def mon_panic_def)
  with fa show ?thesis unfolding run by simp
qed

text \<open>\<open>lock_release\<close>, lines 226 to 229, under the guard.\<close>

lemma mon_release_commit:
  assumes inv: "mon_inv s" and np: "\<not> m_panicked s" and pc: "mpc s t = R226 c"
    and as: "mon_asides t [es1, es2, es3, []] s"
  shows "lk (mon_turns t [es1, es2, es3, []] s)
           = (lk s)\<lparr>curr_user := None, free := True,
                     lock_wchan := tl (lock_wchan (lk s)), lock_lock := None\<rparr> \<and>
         mpc (mon_turns t [es1, es2, es3, []] s) t
           = (case c of Client \<Rightarrow> MonIdle | CvWait \<Rightarrow> W312) \<and>
         (c = CvWait \<longrightarrow> cond (mon_turns t [es1, es2, es3, []] s) = cond s) \<and>
         \<not> m_panicked (mon_turns t [es1, es2, es3, []] s)"
proof -
  define a where "a = mon_fire (MStep t) s"
  define a' where "a' = mon_run es1 a"
  define b where "b = mon_fire (MStep t) a'"
  define b' where "b' = mon_run es2 b"
  define d where "d = mon_fire (MStep t) b'"
  define d' where "d' = mon_run es3 d"
  define z where "z = mon_fire (MStep t) d'"
  have run: "mon_turns t [es1, es2, es3, []] s = z"
    by (simp add: a_def a'_def b_def b'_def d_def d'_def z_def)
  from as have as1: "mon_aside t es1 (mon_fire (MStep t) s)"
    and as2: "mon_aside t es2 (mon_fire (MStep t) a')"
    and as3: "mon_aside t es3 (mon_fire (MStep t) b')"
    by (simp_all add: a_def a'_def b_def b'_def)
  have g_s: "lock_lock (lk s) = Some t"
    using inv pc by (simp add: mon_inv_def mon_lock_inv_def)
  have cg: "c = CvWait \<Longrightarrow> control_spinlock (cond s) = Some t"
    using inv pc by (simp add: mon_inv_def mon_cv_inv_def)
  have a: "lk a = (lk s)\<lparr>curr_user := None\<rparr>" "mpc a t = R227 c" "cond a = cond s"
    "\<not> m_panicked a"
    using np pc by (simp_all add: a_def mon_fire_def mon_step_def mon_goto_def)
  note ta = mon_turn [OF inv as1, folded a_def, folded a'_def]
  have fa: "mon_inv a'" "lk a' = (lk s)\<lparr>curr_user := None\<rparr>" "mpc a' t = R227 c"
    "c = CvWait \<Longrightarrow> cond a' = cond s" "\<not> m_panicked a'"
    using ta a g_s cg by simp_all
  have b: "lk b = (lk s)\<lparr>curr_user := None, free := True\<rparr>" "mpc b t = R228 c"
    "cond b = cond a'" "\<not> m_panicked b"
    using fa by (simp_all add: b_def mon_fire_def mon_step_def mon_goto_def)
  note tb = mon_turn [OF fa(1) as2, folded b_def, folded b'_def]
  have fb: "mon_inv b'" "lk b' = (lk s)\<lparr>curr_user := None, free := True\<rparr>"
    "mpc b' t = R228 c" "c = CvWait \<Longrightarrow> cond b' = cond s" "\<not> m_panicked b'"
    using tb b fa(4) g_s cg by simp_all
  have d: "lk d = (lk s)\<lparr>curr_user := None, free := True, lock_wchan := tl (lock_wchan (lk
    s))\<rparr>"
    "mpc d t = R229 c" "cond d = cond b'" "\<not> m_panicked d"
    using fb
    by (cases "lock_wchan (lk s)"; simp add: d_def mon_fire_def mon_step_def mon_aux_defs)+
  note td = mon_turn [OF fb(1) as3, folded d_def, folded d'_def]
  have fd: "lk d' = (lk s)\<lparr>curr_user := None, free := True, lock_wchan := tl (lock_wchan (lk
    s))\<rparr>"
    "mpc d' t = R229 c" "c = CvWait \<Longrightarrow> cond d' = cond s" "\<not> m_panicked d'"
    using td d fb(4) g_s cg by simp_all
  have z: "lk z = (lk s)\<lparr>curr_user := None, free := True,
      lock_wchan := tl (lock_wchan (lk s)), lock_lock := None\<rparr>"
    "mpc z t = (case c of Client \<Rightarrow> MonIdle | CvWait \<Rightarrow> W312)" "cond z = cond
      d'"
    "\<not> m_panicked z"
    using fd by (simp_all add: z_def mon_fire_def mon_step_def mon_aux_defs)
  show ?thesis unfolding run using z fd(3) by simp
qed

text \<open>\<open>lock_acquire\<close>: lines 200 and 201; the loop on a held lock; lines 205 to
  214.\<close>

lemma mon_acquire_entry:
  assumes inv: "mon_inv s" and np: "\<not> m_panicked s" and pc: "mpc s t = A200 PTR c"
    and irq: "m_in_interrupt s t = False"
    and as: "mon_asides t [es1, es2] s" and i1: "MIrq t True \<notin> set es1"
  shows "mpc (mon_turns t [es1, es2] s) t = A203 c \<and>
         \<not> m_panicked (mon_turns t [es1, es2] s) \<and>
         lock_do_i_hold (lk (mon_turns t [es1, es2] s)) t = lock_do_i_hold (lk s) t"
proof -
  define a where "a = mon_fire (MStep t) s"
  define a' where "a' = mon_run es1 a"
  define b where "b = mon_fire (MStep t) a'"
  define b' where "b' = mon_run es2 b"
  have run: "mon_turns t [es1, es2] s = b'"
    by (simp add: a_def a'_def b_def b'_def)
  from as have as1: "mon_aside t es1 (mon_fire (MStep t) s)"
    and as2: "mon_aside t es2 (mon_fire (MStep t) a')"
    by (simp_all add: a_def a'_def)
  have a: "mpc a t = A201 c" "\<not> m_panicked a" "lk a = lk s" "m_in_interrupt a t = False"
    using np pc irq by (simp_all add: a_def mon_fire_def mon_step_def mon_goto_def)
  note ta = mon_turn [OF inv as1, folded a_def, folded a'_def]
  have fa: "mon_inv a'" "mpc a' t = A201 c" "\<not> m_panicked a'"
    "lock_do_i_hold (lk a') t = lock_do_i_hold (lk s) t" "m_in_interrupt a' t = False"
    using ta a i1 by simp_all
  have b: "mpc b t = A203 c" "\<not> m_panicked b" "lk b = lk a'"
    using fa by (simp_all add: b_def mon_fire_def mon_step_def mon_goto_def)
  note tb = mon_turn [OF fa(1) as2, folded b_def, folded b'_def]
  have fb: "mpc b' t = A203 c" "\<not> m_panicked b'"
    "lock_do_i_hold (lk b') t = lock_do_i_hold (lk s) t"
    using tb b fa by simp_all
  show ?thesis unfolding run using fb by simp
qed

lemma mon_acquire_sleep:
  assumes inv: "mon_inv s" and np: "\<not> m_panicked s" and pc: "mpc s t = A205 c"
    and nf: "free (lk s) = False" and as: "mon_asides t [es1, []] s"
  shows "lk (mon_turns t [es1, []] s)
           = (lk s)\<lparr>lock_wchan := lock_wchan (lk s) @ [t], lock_lock := None\<rparr> \<and>
         mpc (mon_turns t [es1, []] s) t = A_asleep c \<and>
         \<not> m_panicked (mon_turns t [es1, []] s)"
proof -
  define a where "a = mon_fire (MStep t) s"
  define a' where "a' = mon_run es1 a"
  define b where "b = mon_fire (MStep t) a'"
  have run: "mon_turns t [es1, []] s = b"
    by (simp add: a_def a'_def b_def)
  from as have as1: "mon_aside t es1 (mon_fire (MStep t) s)"
    by simp
  have g_s: "lock_lock (lk s) = Some t"
    using inv pc by (simp add: mon_inv_def mon_lock_inv_def)
  have a: "lk a = lk s" "mpc a t = A208 c" "\<not> m_panicked a"
    using np pc nf by (simp_all add: a_def mon_fire_def mon_step_def mon_goto_def)
  note ta = mon_turn [OF inv as1, folded a_def, folded a'_def]
  have fa: "lk a' = lk s" "mpc a' t = A208 c" "\<not> m_panicked a'"
    using ta a g_s by simp_all
  have b: "lk b = (lk s)\<lparr>lock_wchan := lock_wchan (lk s) @ [t], lock_lock := None\<rparr>"
    "mpc b t = A_asleep c" "\<not> m_panicked b"
    using fa by (simp_all add: b_def mon_fire_def mon_step_def mon_aux_defs)
  show ?thesis unfolding run using b by simp
qed

lemma mon_acquire_commit:
  assumes inv: "mon_inv s" and np: "\<not> m_panicked s" and pc: "mpc s t = A205 c"
    and fr: "free (lk s) = True" and as: "mon_asides t [es1, es2, es3, []] s"
  shows "lk (mon_turns t [es1, es2, es3, []] s)
           = (lk s)\<lparr>curr_user := Some t, free := False, lock_lock := None\<rparr> \<and>
         mpc (mon_turns t [es1, es2, es3, []] s) t = MonIdle \<and>
         \<not> m_panicked (mon_turns t [es1, es2, es3, []] s)"
proof -
  define a where "a = mon_fire (MStep t) s"
  define a' where "a' = mon_run es1 a"
  define b where "b = mon_fire (MStep t) a'"
  define b' where "b' = mon_run es2 b"
  define d where "d = mon_fire (MStep t) b'"
  define d' where "d' = mon_run es3 d"
  define z where "z = mon_fire (MStep t) d'"
  have run: "mon_turns t [es1, es2, es3, []] s = z"
    by (simp add: a_def a'_def b_def b'_def d_def d'_def z_def)
  from as have as1: "mon_aside t es1 (mon_fire (MStep t) s)"
    and as2: "mon_aside t es2 (mon_fire (MStep t) a')"
    and as3: "mon_aside t es3 (mon_fire (MStep t) b')"
    by (simp_all add: a_def a'_def b_def b'_def)
  have g_s: "lock_lock (lk s) = Some t"
    using inv pc by (simp add: mon_inv_def mon_lock_inv_def)
  have a: "lk a = lk s" "mpc a t = A212 c" "\<not> m_panicked a"
    using np pc fr by (simp_all add: a_def mon_fire_def mon_step_def mon_goto_def)
  note ta = mon_turn [OF inv as1, folded a_def, folded a'_def]
  have fa: "mon_inv a'" "lk a' = lk s" "mpc a' t = A212 c" "\<not> m_panicked a'"
    using ta a g_s by simp_all
  have b: "lk b = (lk s)\<lparr>curr_user := Some t\<rparr>" "mpc b t = A213 c" "\<not> m_panicked
    b"
    using fa by (simp_all add: b_def mon_fire_def mon_step_def mon_goto_def)
  note tb = mon_turn [OF fa(1) as2, folded b_def, folded b'_def]
  have fb: "mon_inv b'" "lk b' = (lk s)\<lparr>curr_user := Some t\<rparr>" "mpc b' t = A213 c"
    "\<not> m_panicked b'"
    using tb b g_s by simp_all
  have d: "lk d = (lk s)\<lparr>curr_user := Some t, free := False\<rparr>" "mpc d t = A214 c"
    "\<not> m_panicked d"
    using fb by (simp_all add: d_def mon_fire_def mon_step_def mon_goto_def)
  note td = mon_turn [OF fb(1) as3, folded d_def, folded d'_def]
  have fd: "lk d' = (lk s)\<lparr>curr_user := Some t, free := False\<rparr>" "mpc d' t = A214 c"
    "\<not> m_panicked d'"
    using td d g_s by simp_all
  have z: "lk z = (lk s)\<lparr>curr_user := Some t, free := False, lock_lock := None\<rparr>"
    "mpc z t = MonIdle" "\<not> m_panicked z"
    using fd by (simp_all add: z_def mon_fire_def mon_step_def mon_aux_defs)
  show ?thesis unfolding run using z by simp
qed

lemma mon_acquire_asleep_fire:
  assumes "mon_inv s" and "mpc s t = A_asleep c"
  shows "t \<in> set (lock_wchan (lk s)) \<and> mon_step t s = s \<and>
         (mpc (mon_fire e s) t = A_asleep c \<or> mpc (mon_fire e s) t = A_woken c)"
proof -
  have "t \<in> set (lock_wchan (lk s))"
    using assms by (simp add: mon_inv_def mon_sleep_inv_def)
  moreover have "mon_step t s = s" using assms(2) by (simp add: mon_step_def)
  moreover have "mpc (mon_fire e s) t = A_asleep c \<or> mpc (mon_fire e s) t = A_woken c"
  proof (cases "e = MStep t")
    case True
    with assms(2) show ?thesis by (simp add: mon_fire_def mon_step_def)
  next
    case False
    from mon_fire_own_pc [OF this, of s] assms(2) show ?thesis by auto
  qed
  ultimately show ?thesis by simp
qed

text \<open>\<open>cv_wait\<close>, lines 300 to 302.\<close>

lemma mon_wait_entry:
  assumes inv: "mon_inv s" and np: "\<not> m_panicked s" and pc: "mpc s t = W300 PTR PTR"
    and own: "lock_do_i_hold (lk s) t" and as: "mon_asides t [es1, es2, es3] s"
  shows "mpc (mon_turns t [es1, es2, es3] s) t = W308 \<and>
         \<not> m_panicked (mon_turns t [es1, es2, es3] s) \<and>
         lock_do_i_hold (lk (mon_turns t [es1, es2, es3] s)) t"
proof -
  define a where "a = mon_fire (MStep t) s"
  define a' where "a' = mon_run es1 a"
  define b where "b = mon_fire (MStep t) a'"
  define b' where "b' = mon_run es2 b"
  define d where "d = mon_fire (MStep t) b'"
  define d' where "d' = mon_run es3 d"
  have run: "mon_turns t [es1, es2, es3] s = d'"
    by (simp add: a_def a'_def b_def b'_def d_def d'_def)
  from as have as1: "mon_aside t es1 (mon_fire (MStep t) s)"
    and as2: "mon_aside t es2 (mon_fire (MStep t) a')"
    and as3: "mon_aside t es3 (mon_fire (MStep t) b')"
    by (simp_all add: a_def a'_def b_def b'_def)
  have a: "mpc a t = W301 PTR" "\<not> m_panicked a" "lk a = lk s"
    using np pc by (simp_all add: a_def mon_fire_def mon_step_def mon_goto_def)
  note ta = mon_turn [OF inv as1, folded a_def, folded a'_def]
  have fa: "mon_inv a'" "mpc a' t = W301 PTR" "\<not> m_panicked a'" "lock_do_i_hold (lk a') t"
    using ta a own by simp_all
  have b: "mpc b t = W302" "\<not> m_panicked b" "lk b = lk a'"
    using fa by (simp_all add: b_def mon_fire_def mon_step_def mon_goto_def)
  note tb = mon_turn [OF fa(1) as2, folded b_def, folded b'_def]
  have fb: "mon_inv b'" "mpc b' t = W302" "\<not> m_panicked b'" "lock_do_i_hold (lk b') t"
    using tb b fa by simp_all
  have d: "mpc d t = W308" "\<not> m_panicked d" "lk d = lk b'"
    using fb by (simp_all add: d_def mon_fire_def mon_step_def mon_goto_def)
  note td = mon_turn [OF fb(1) as3, folded d_def, folded d'_def]
  have fd: "mpc d' t = W308" "\<not> m_panicked d'" "lock_do_i_hold (lk d') t"
    using td d fb by simp_all
  show ?thesis unfolding run using fd by simp
qed

lemma mon_release_never_silent:
  assumes inv: "mon_inv s" and np: "\<not> m_panicked s" and pc: "mpc s t = MonIdle"
    and nown: "\<not> lock_do_i_hold (lk s) t"
    and o0: "MStep t \<notin> set es0" and o1: "MStep t \<notin> set es1" and o2: "MStep t \<notin>
      set es2"
  shows "m_panicked (mon_turns t [es1, es2] (mon_run es0 (mon_fire (MCall t (OpRelease p)) s)))
    \<and>
         mpc (mon_turns t [es1, es2] (mon_run es0 (mon_fire (MCall t (OpRelease p)) s))) t
           \<noteq> MonIdle"
proof -
  define c where "c = mon_fire (MCall t (OpRelease p)) s"
  define c' where "c' = mon_run es0 c"
  define a where "a = mon_fire (MStep t) c'"
  define a' where "a' = mon_run es1 a"
  define b where "b = mon_fire (MStep t) a'"
  define b' where "b' = mon_run es2 b"
  have run: "mon_turns t [es1, es2] (mon_run es0 (mon_fire (MCall t (OpRelease p)) s)) = b'"
    by (simp add: c_def c'_def a_def a'_def b_def b'_def)
  have c: "mpc c t = R223 p Client" "lk c = lk s"
    using np pc by (simp_all add: c_def mon_fire_def mon_call_def mon_goto_def)
  have inv_c: "mon_inv c" unfolding c_def using inv by (rule mon_inv_fire)
  have fc: "mpc c' t = R223 p Client" "\<not> lock_do_i_hold (lk c') t"
    using mon_pc_frame_run [OF o0, of c] mon_owner_frame_run [OF inv_c o0] c nown
    by (simp_all add: c'_def)
  have inv_c': "mon_inv c'" unfolding c'_def using inv_c by (rule mon_inv_run)
  have a: "m_panicked a \<or> mpc a t = R224 Client" "mpc a t \<noteq> MonIdle"
    "woken_pc (mpc a t) = mpc a t" "\<not> lock_do_i_hold (lk a) t"
    using fc by (auto simp: a_def mon_fire_def mon_step_def mon_goto_def mon_panic_def)
  have inv_a: "mon_inv a" unfolding a_def using inv_c' by (rule mon_inv_fire)
  have fa: "m_panicked a' \<or> mpc a' t = R224 Client" "mpc a' t \<noteq> MonIdle"
    "woken_pc (mpc a' t) = mpc a' t" "\<not> lock_do_i_hold (lk a') t"
    using mon_pc_frame_run [OF o1 a(2,3)] mon_owner_frame_run [OF inv_a o1] a
      mon_run_panicked [of a es1]
    by (auto simp: a'_def)
  have b: "m_panicked b" "mpc b t \<noteq> MonIdle" "woken_pc (mpc b t) = mpc b t"
    using fa by (auto simp: b_def mon_fire_def mon_step_def mon_panic_def)
  have fb: "m_panicked b'" "mpc b' t \<noteq> MonIdle"
    using b by (simp_all add: b'_def mon_run_panicked)
  show ?thesis unfolding run using fb by simp
qed

text \<open>
  Claim C6. In every reachable state in which the kernel runs, let an idle thread
  \<open>t\<close> call \<open>lock_release\<close> on the lock, the other threads doing
  whatever they do between its statements (short of halting the kernel). If
  \<open>lock_do_i_hold\<close> is false for \<open>t\<close>, then after its first
  statement \<open>t\<close> stands at the assertion of line 224, still not the owner, and
  its next statement halts the kernel and changes nothing else; and even when the other
  threads are free to halt the kernel themselves and whether the lock pointer passed is
  \<open>NULL\<close> or not, after the second statement of \<open>t\<close> the kernel is
  halted and the call has not returned: the call is not a silent no-op. If
  \<open>lock_do_i_hold\<close> is true for \<open>t\<close>, both assertions pass and
  \<open>t\<close> reaches \<open>spinlock_acquire\<close> (line 225), still the owner;
  there it takes the guard if the guard is free and spins otherwise; and from line 226, with
  the guard, its next four statements set \<open>curr_user\<close> to \<open>NULL\<close>
  and \<open>free\<close> to true, take at most the head sleeper off the wait-channel (all
  other sleepers stay asleep), release the guard and return, without halting the kernel.
\<close>

theorem lock_release_asserts_ownership:
  assumes "s = mon_run es (mon_boot lname cname)" and "\<not> m_panicked s"
  shows
    "(mpc s t = MonIdle \<and> \<not> lock_do_i_hold (lk s) t \<and>
      mon_aside t es0 (mon_fire (MCall t (OpRelease PTR)) s) \<and>
      mon_asides t [es1] (mon_run es0 (mon_fire (MCall t (OpRelease PTR)) s)) \<longrightarrow>
        mpc (mon_turns t [es1] (mon_run es0 (mon_fire (MCall t (OpRelease PTR)) s))) t
          = R224 Client \<and>
        \<not> m_panicked (mon_turns t [es1] (mon_run es0 (mon_fire (MCall t (OpRelease PTR)) s)))
          \<and>
        \<not> lock_do_i_hold
            (lk (mon_turns t [es1] (mon_run es0 (mon_fire (MCall t (OpRelease PTR)) s)))) t \<and>
        mon_fire (MStep t)
            (mon_turns t [es1] (mon_run es0 (mon_fire (MCall t (OpRelease PTR)) s)))
          = (mon_turns t [es1] (mon_run es0 (mon_fire (MCall t (OpRelease PTR)) s)))
              \<lparr>m_panicked := True\<rparr>) \<and>
     (mpc s t = MonIdle \<and> \<not> lock_do_i_hold (lk s) t \<and>
      MStep t \<notin> set es0 \<and> MStep t \<notin> set es1 \<and> MStep t \<notin> set es2
        \<longrightarrow>
        m_panicked
          (mon_turns t [es1, es2] (mon_run es0 (mon_fire (MCall t (OpRelease p)) s))) \<and>
        mpc (mon_turns t [es1, es2] (mon_run es0 (mon_fire (MCall t (OpRelease p)) s))) t
          \<noteq> MonIdle) \<and>
     (mpc s t = MonIdle \<and> lock_do_i_hold (lk s) t \<and>
      mon_aside t es0 (mon_fire (MCall t (OpRelease PTR)) s) \<and>
      mon_asides t [es1, es2] (mon_run es0 (mon_fire (MCall t (OpRelease PTR)) s)) \<longrightarrow>
        mpc (mon_turns t [es1, es2] (mon_run es0 (mon_fire (MCall t (OpRelease PTR)) s))) t
          = R225 Client \<and>
        \<not> m_panicked
            (mon_turns t [es1, es2] (mon_run es0 (mon_fire (MCall t (OpRelease PTR)) s))) \<and>
        lock_do_i_hold
          (lk (mon_turns t [es1, es2] (mon_run es0 (mon_fire (MCall t (OpRelease PTR)) s)))) t)
            \<and>
     (mpc s t = R225 c \<longrightarrow>
        lock_do_i_hold (lk s) t \<and>
        (lock_lock (lk s) = None \<longrightarrow>
           mon_step t s = s\<lparr>lk := (lk s)\<lparr>lock_lock := Some t\<rparr>,
                            mpc := (mpc s)(t := R226 c)\<rparr>) \<and>
        (lock_lock (lk s) \<noteq> None \<longrightarrow> mon_step t s = s) \<and>
        (e \<noteq> MStep t \<longrightarrow> mpc (mon_fire e s) t = R225 c)) \<and>
     (mpc s t = R226 c \<and> mon_asides t [es1, es2, es3, []] s \<longrightarrow>
        lock_lock (lk s) = Some t \<and> lock_do_i_hold (lk s) t \<and>
        lk (mon_turns t [es1, es2, es3, []] s)
          = (lk s)\<lparr>curr_user := None, free := True,
                    lock_wchan := tl (lock_wchan (lk s)), lock_lock := None\<rparr> \<and>
        mpc (mon_turns t [es1, es2, es3, []] s) t
          = (case c of Client \<Rightarrow> MonIdle | CvWait \<Rightarrow> W312) \<and>
        \<not> m_panicked (mon_turns t [es1, es2, es3, []] s) \<and>
        (\<forall>u. is_A_asleep (mpc (mon_turns t [es1, es2, es3, []] s) u)
             = (u \<in> set (tl (lock_wchan (lk s))))))"
proof -
  have inv: "mon_inv s"
    unfolding assms by (rule mon_inv_reachable)
  have H: "(lock_lock (lk s) = Some u) = lk_guarded (mpc s u)" for u
    using inv by (simp add: mon_inv_def mon_lock_inv_def)
  have E: "lk_sees (lk_view_of (mpc s u)) u (lk s)" for u
    using inv by (simp add: mon_inv_def mon_field_inv_def)
  note call = mon_call_frame [OF inv assms(2), of t es0 "OpRelease PTR"]
  have 1: "mpc s t = MonIdle \<and> \<not> lock_do_i_hold (lk s) t \<and>
      mon_aside t es0 (mon_fire (MCall t (OpRelease PTR)) s) \<and>
      mon_asides t [es1] (mon_run es0 (mon_fire (MCall t (OpRelease PTR)) s)) \<longrightarrow>
        mpc (mon_turns t [es1] (mon_run es0 (mon_fire (MCall t (OpRelease PTR)) s))) t
          = R224 Client \<and>
        \<not> m_panicked (mon_turns t [es1] (mon_run es0 (mon_fire (MCall t (OpRelease PTR)) s)))
          \<and>
        \<not> lock_do_i_hold
            (lk (mon_turns t [es1] (mon_run es0 (mon_fire (MCall t (OpRelease PTR)) s)))) t \<and>
        mon_fire (MStep t)
            (mon_turns t [es1] (mon_run es0 (mon_fire (MCall t (OpRelease PTR)) s)))
          = (mon_turns t [es1] (mon_run es0 (mon_fire (MCall t (OpRelease PTR)) s)))
              \<lparr>m_panicked := True\<rparr>"
  proof (intro impI, elim conjE)
    assume h: "mpc s t = MonIdle" "\<not> lock_do_i_hold (lk s) t"
      "mon_aside t es0 (mon_fire (MCall t (OpRelease PTR)) s)"
      "mon_asides t [es1] (mon_run es0 (mon_fire (MCall t (OpRelease PTR)) s))"
    from call [OF h(1,3)] h(2)
    show "mpc (mon_turns t [es1] (mon_run es0 (mon_fire (MCall t (OpRelease PTR)) s))) t
          = R224 Client \<and>
        \<not> m_panicked (mon_turns t [es1] (mon_run es0 (mon_fire (MCall t (OpRelease PTR)) s)))
          \<and>
        \<not> lock_do_i_hold
            (lk (mon_turns t [es1] (mon_run es0 (mon_fire (MCall t (OpRelease PTR)) s)))) t \<and>
        mon_fire (MStep t)
            (mon_turns t [es1] (mon_run es0 (mon_fire (MCall t (OpRelease PTR)) s)))
          = (mon_turns t [es1] (mon_run es0 (mon_fire (MCall t (OpRelease PTR)) s)))
              \<lparr>m_panicked := True\<rparr>"
      by (intro mon_release_refused [OF _ _ _ _ h(4)]) simp_all
  qed
  have 2: "mpc s t = MonIdle \<and> lock_do_i_hold (lk s) t \<and>
      mon_aside t es0 (mon_fire (MCall t (OpRelease PTR)) s) \<and>
      mon_asides t [es1, es2] (mon_run es0 (mon_fire (MCall t (OpRelease PTR)) s)) \<longrightarrow>
        mpc (mon_turns t [es1, es2] (mon_run es0 (mon_fire (MCall t (OpRelease PTR)) s))) t
          = R225 Client \<and>
        \<not> m_panicked
            (mon_turns t [es1, es2] (mon_run es0 (mon_fire (MCall t (OpRelease PTR)) s))) \<and>
        lock_do_i_hold
          (lk (mon_turns t [es1, es2] (mon_run es0 (mon_fire (MCall t (OpRelease PTR)) s)))) t"
  proof (intro impI, elim conjE)
    assume h: "mpc s t = MonIdle" "lock_do_i_hold (lk s) t"
      "mon_aside t es0 (mon_fire (MCall t (OpRelease PTR)) s)"
      "mon_asides t [es1, es2] (mon_run es0 (mon_fire (MCall t (OpRelease PTR)) s))"
    from call [OF h(1,3)] h(2)
      mon_release_entry [of "mon_run es0 (mon_fire (MCall t (OpRelease PTR)) s)" t Client,
        OF _ _ _ _ h(4)]
    show "mpc (mon_turns t [es1, es2] (mon_run es0 (mon_fire (MCall t (OpRelease PTR)) s))) t
          = R225 Client \<and>
        \<not> m_panicked
            (mon_turns t [es1, es2] (mon_run es0 (mon_fire (MCall t (OpRelease PTR)) s))) \<and>
        lock_do_i_hold
          (lk (mon_turns t [es1, es2] (mon_run es0 (mon_fire (MCall t (OpRelease PTR)) s)))) t"
      by simp
  qed
  have 3: "mpc s t = R225 c \<longrightarrow>
        lock_do_i_hold (lk s) t \<and>
        (lock_lock (lk s) = None \<longrightarrow>
           mon_step t s = s\<lparr>lk := (lk s)\<lparr>lock_lock := Some t\<rparr>,
                            mpc := (mpc s)(t := R226 c)\<rparr>) \<and>
        (lock_lock (lk s) \<noteq> None \<longrightarrow> mon_step t s = s) \<and>
        (e \<noteq> MStep t \<longrightarrow> mpc (mon_fire e s) t = R225 c)"
    using E[of t] mon_fire_own_pc [of e t s]
    by (auto simp add: mon_step_def mon_aux_defs lock_do_i_hold_def)
  have 4: "lock_lock (lk s) = Some t \<and> lock_do_i_hold (lk s) t" if "mpc s t = R226 c"
    using that E[of t] H[of t] by (simp add: lock_do_i_hold_def)
  have 5: "is_A_asleep (mpc (mon_turns t xs s) u) = (u \<in> set (tl (lock_wchan (lk s))))"
    if "lock_wchan (lk (mon_turns t xs s)) = tl (lock_wchan (lk s))" for xs u
  proof -
    have "mon_inv (mon_turns t ys x)" if "mon_inv x" for ys x
      using that by (induction ys arbitrary: x) (simp_all add: mon_inv_fire mon_inv_run)
    from this [OF inv, of xs] show ?thesis
      using that by (simp add: mon_inv_def mon_sleep_inv_def)
  qed
  show ?thesis
    using 1 2 3 4 mon_release_commit [OF inv assms(2), of t c es1 es2 es3]
      5 [of "[es1, es2, es3, []]"] mon_release_never_silent [OF inv assms(2), of t es0 es1 es2 p]
    by (simp del: mon_turns.simps mon_asides.simps)
qed

theorem lock_release_asserts_ownership_witness:
  "mpc (mon_turns 1 [[MCall 2 (OpAcquire PTR)]]
     (mon_run [MIrq 2 True] (mon_fire (MCall 1 (OpRelease PTR))
       (mon_run run_acquire (mon_boot ''l'' ''c''))))) 1 = R224 Client \<and>
   m_panicked (mon_fire (MStep 1) (mon_turns 1 [[MCall 2 (OpAcquire PTR)]]
     (mon_run [MIrq 2 True] (mon_fire (MCall 1 (OpRelease PTR))
       (mon_run run_acquire (mon_boot ''l'' ''c'')))))) \<and>
   lk (mon_fire (MStep 1) (mon_turns 1 [[MCall 2 (OpAcquire PTR)]]
     (mon_run [MIrq 2 True] (mon_fire (MCall 1 (OpRelease PTR))
       (mon_run run_acquire (mon_boot ''l'' ''c''))))))
     = lk (mon_run run_acquire (mon_boot ''l'' ''c'')) \<and>
   m_panicked (mon_turns 1 [[MCall 2 (OpRelease NULL)], [MStep 2]]
     (mon_run [MIrq 2 True] (mon_fire (MCall 1 (OpRelease PTR))
       (mon_run run_acquire (mon_boot ''l'' ''c''))))) \<and>
   mpc (mon_turns 0 [[MStep 1], [MIrq 2 True]]
     (mon_run [MCall 1 (OpAcquire PTR)] (mon_fire (MCall 0 (OpRelease PTR))
       (mon_run run_acquire (mon_boot ''l'' ''c''))))) 0 = R225 Client \<and>
   \<not> m_panicked (mon_turns 0 [[MStep 1], [MIrq 2 True]]
     (mon_run [MCall 1 (OpAcquire PTR)] (mon_fire (MCall 0 (OpRelease PTR))
       (mon_run run_acquire (mon_boot ''l'' ''c''))))) \<and>
   mpc (mon_run run_release_entry (mon_boot ''l'' ''c'')) 0 = R225 Client \<and>
   lock_do_i_hold (lk (mon_run run_release_entry (mon_boot ''l'' ''c''))) 0 \<and>
   mpc (mon_step 0 (mon_run run_release_entry (mon_boot ''l'' ''c''))) 0 = R226 Client \<and>
   mpc (mon_run (run_release_entry @ [MStep 0]) (mon_boot ''l'' ''c'')) 0 = R226 Client \<and>
   free (lk (mon_turns 0 [[MCall 1 (OpAcquire PTR)], [MStep 1], [MIrq 2 True], []]
     (mon_run (run_release_entry @ [MStep 0]) (mon_boot ''l'' ''c'')))) = True \<and>
   curr_user (lk (mon_turns 0 [[MCall 1 (OpAcquire PTR)], [MStep 1], [MIrq 2 True], []]
     (mon_run (run_release_entry @ [MStep 0]) (mon_boot ''l'' ''c'')))) = None \<and>
   lock_lock (lk (mon_turns 0 [[MCall 1 (OpAcquire PTR)], [MStep 1], [MIrq 2 True], []]
     (mon_run (run_release_entry @ [MStep 0]) (mon_boot ''l'' ''c'')))) = None \<and>
   mpc (mon_turns 0 [[MCall 1 (OpAcquire PTR)], [MStep 1], [MIrq 2 True], []]
     (mon_run (run_release_entry @ [MStep 0]) (mon_boot ''l'' ''c''))) 0 = MonIdle \<and>
   \<not> m_panicked (mon_turns 0 [[MCall 1 (OpAcquire PTR)], [MStep 1], [MIrq 2 True], []]
     (mon_run (run_release_entry @ [MStep 0]) (mon_boot ''l'' ''c'')))"
proof -
  define a where "a = mon_run run_acquire (mon_boot ''l'' ''c'')"
  define r where "r = mon_run run_release_entry (mon_boot ''l'' ''c'')"
  define g where "g = mon_run (run_release_entry @ [MStep 0]) (mon_boot ''l'' ''c'')"
  define y where "y = mon_turns 1 [[MCall 2 (OpAcquire PTR)]]
     (mon_run [MIrq 2 True] (mon_fire (MCall 1 (OpRelease PTR)) a))"
  note runs = run_release_entry_def run_acquire_def run_acquire_midway_def
  have ea: "\<not> m_panicked a" "mpc a 1 = MonIdle" "\<not> lock_do_i_hold (lk a) 1"
    "mon_aside 1 [MIrq 2 True] (mon_fire (MCall 1 (OpRelease PTR)) a)"
    "mon_asides 1 [[MCall 2 (OpAcquire PTR)]]
       (mon_run [MIrq 2 True] (mon_fire (MCall 1 (OpRelease PTR)) a))"
    "mpc a 0 = MonIdle" "lock_do_i_hold (lk a) 0"
    "mon_aside 0 [MCall 1 (OpAcquire PTR)] (mon_fire (MCall 0 (OpRelease PTR)) a)"
    "mon_asides 0 [[MStep 1], [MIrq 2 True]]
       (mon_run [MCall 1 (OpAcquire PTR)] (mon_fire (MCall 0 (OpRelease PTR)) a))"
    by (simp_all add: a_def runs mon_aside_def mon_eval)
  have ey: "lk y = lk a"
    by (simp add: y_def a_def runs mon_eval)
  have er: "\<not> m_panicked r" "mpc r 0 = R225 Client" "lock_lock (lk r) = None"
    by (simp_all add: r_def runs mon_eval)
  have eg: "\<not> m_panicked g" "mpc g 0 = R226 Client"
    "mon_asides 0 [[MCall 1 (OpAcquire PTR)], [MStep 1], [MIrq 2 True], []] g"
    by (simp_all add: g_def runs mon_aside_def mon_eval)
  note t1 = lock_release_asserts_ownership
    [OF a_def ea(1), where t = 1 and ?es0.0 = "[MIrq 2 True]"
      and ?es1.0 = "[MCall 2 (OpAcquire PTR)]"]
  note t2 = lock_release_asserts_ownership
    [OF a_def ea(1), where t = 1 and ?es0.0 = "[MIrq 2 True]"
      and ?es1.0 = "[MCall 2 (OpRelease NULL)]" and ?es2.0 = "[MStep 2]" and p = PTR]
  have r2: "m_panicked (mon_turns 1 [[MCall 2 (OpRelease NULL)], [MStep 2]]
       (mon_run [MIrq 2 True] (mon_fire (MCall 1 (OpRelease PTR)) a)))"
    using t2 ea(2,3) by simp
  note t0 = lock_release_asserts_ownership
    [OF a_def ea(1), where t = 0 and ?es0.0 = "[MCall 1 (OpAcquire PTR)]"
      and ?es1.0 = "[MStep 1]" and ?es2.0 = "[MIrq 2 True]"]
  note tr = lock_release_asserts_ownership [OF r_def er(1), where t = 0 and c = Client]
  note tg = lock_release_asserts_ownership
    [OF g_def eg(1), where t = 0 and c = Client and ?es1.0 = "[MCall 1 (OpAcquire PTR)]"
      and ?es2.0 = "[MStep 1]" and ?es3.0 = "[MIrq 2 True]"]
  have r1: "mpc y 1 = R224 Client" "mon_fire (MStep 1) y = y\<lparr>m_panicked := True\<rparr>"
    using t1 ea unfolding y_def by simp_all
  then have r1': "m_panicked (mon_fire (MStep 1) y)" "lk (mon_fire (MStep 1) y) = lk a"
    using ey by simp_all
  have r0: "mpc (mon_turns 0 [[MStep 1], [MIrq 2 True]]
       (mon_run [MCall 1 (OpAcquire PTR)] (mon_fire (MCall 0 (OpRelease PTR)) a))) 0
      = R225 Client"
    "\<not> m_panicked (mon_turns 0 [[MStep 1], [MIrq 2 True]]
       (mon_run [MCall 1 (OpAcquire PTR)] (mon_fire (MCall 0 (OpRelease PTR)) a)))"
    using t0 ea by simp_all
  have rr: "lock_do_i_hold (lk r) 0" "mpc (mon_step 0 r) 0 = R226 Client"
    using tr er by simp_all
  have rg: "lk (mon_turns 0 [[MCall 1 (OpAcquire PTR)], [MStep 1], [MIrq 2 True], []] g)
      = (lk g)\<lparr>curr_user := None, free := True,
                lock_wchan := tl (lock_wchan (lk g)), lock_lock := None\<rparr>"
    "mpc (mon_turns 0 [[MCall 1 (OpAcquire PTR)], [MStep 1], [MIrq 2 True], []] g) 0 = MonIdle"
    "\<not> m_panicked (mon_turns 0 [[MCall 1 (OpAcquire PTR)], [MStep 1], [MIrq 2 True], []] g)"
    using tg eg by simp_all
  show ?thesis
    using r1(1) r1' r2 r0 er(2) rr eg(2) rg unfolding y_def a_def r_def g_def by simp
qed

lemma woken_pc_wf: "pc_wf (woken_pc p) = pc_wf p"
  by (cases p) simp_all

lemma mon_pc_inv_fire:
  assumes "mon_pc_inv s"
  shows "mon_pc_inv (mon_fire e s)"
proof (cases "m_panicked s")
  case True
  with assms show ?thesis by (simp add: mon_fire_panicked)
next
  case False
  have W: "pc_wf (mpc s u)" for u using assms by (simp add: mon_pc_inv_def)
  show ?thesis
  proof (cases e)
    case (MCall t c)
    with False W show ?thesis
      by (cases c) (auto simp: mon_pc_inv_def mon_fire_def mon_call_def mon_goto_def)
  next
    case (MStep t)
    have "pc_wf (mpc (mon_step t s) u)" for u
    proof (cases "u = t")
      case True
      with W[of t] show ?thesis
        by (cases "mpc s t")
           (auto simp: mon_step_def mon_aux_defs
              split: option.splits list.splits caller.splits elim: pc_wf.elims)
    next
      case False
      with mon_step_other [of u t s] W[of u] show ?thesis
        by (auto simp: woken_pc_wf)
    qed
    with MStep False show ?thesis by (simp add: mon_pc_inv_def mon_fire_def)
  next
    case (MIrq t b)
    with False W show ?thesis by (simp add: mon_pc_inv_def mon_fire_def)
  qed
qed

lemma mon_pc_inv_run: "mon_pc_inv s \<Longrightarrow> mon_pc_inv (mon_run es s)"
  by (induction es arbitrary: s) (simp_all add: mon_pc_inv_fire)

lemma mon_pc_inv_reachable: "mon_pc_inv (mon_run es (mon_boot ln cn))"
  by (rule mon_pc_inv_run) (simp add: mon_pc_inv_def mon_boot_def)

lemma woken_pc_idle: "(woken_pc p = MonIdle) = (p = MonIdle)" "(MonIdle = woken_pc p) = (p =
  MonIdle)"
  by (cases p; auto)+

lemma cv_wait_returns_owner:
  assumes "mon_inv s" and "in_cv_wait (mpc s t)" and "mpc (mon_fire e s) t = MonIdle"
  shows "mpc s t = A214 CvWait \<and> e = MStep t \<and> lock_do_i_hold (lk (mon_fire e s)) t \<and>
         lock_lock (lk (mon_fire e s)) = None"
proof -
  have np: "\<not> m_panicked s"
    using assms(2,3) by (auto simp: mon_fire_panicked)
  have E: "lk_sees (lk_view_of (mpc s u)) u (lk s)" for u
    using assms(1) by (simp add: mon_inv_def mon_field_inv_def)
  have e: "e = MStep t"
  proof (rule ccontr)
    assume "e \<noteq> MStep t"
    from mon_fire_own_pc [OF this, of s] assms(2,3) show False
      by (auto simp: woken_pc_idle)
  qed
  with np assms(2,3) E[of t] show ?thesis
    by (cases "mpc s t" rule: in_cv_wait.cases)
       (auto simp: mon_fire_def mon_step_def mon_aux_defs lock_do_i_hold_def
          split: option.splits list.splits if_splits)
qed

lemma cv_asleep_fire:
  assumes "mon_inv s" and "mpc s t = W_asleep"
  shows "t \<in> set (control_wchan (cond s)) \<and> mon_step t s = s \<and>
         (mpc (mon_fire e s) t = W_asleep \<or> mpc (mon_fire e s) t = W_woken)"
proof -
  have "t \<in> set (control_wchan (cond s))"
    using assms by (simp add: mon_inv_def mon_sleep_inv_def)
  moreover have "mon_step t s = s" using assms(2) by (simp add: mon_step_def)
  moreover have "mpc (mon_fire e s) t = W_asleep \<or> mpc (mon_fire e s) t = W_woken"
  proof (cases "e = MStep t")
    case True
    with assms(2) show ?thesis by (simp add: mon_fire_def mon_step_def)
  next
    case False
    from mon_fire_own_pc [OF this, of s] assms(2) show ?thesis by auto
  qed
  ultimately show ?thesis by simp
qed

lemma cv_woken_fire:
  assumes "mpc s t = W_woken"
  shows "(mpc (mon_fire e s) t = W_woken \<or> mpc (mon_fire e s) t = W313) \<and>
         (control_spinlock (cond s) = None \<longrightarrow>
            mon_step t s = s\<lparr>cond := (cond s)\<lparr>control_spinlock := Some t\<rparr>,
                             mpc := (mpc s)(t := W313)\<rparr>) \<and>
         (control_spinlock (cond s) \<noteq> None \<longrightarrow> mon_step t s = s)"
proof -
  have "mpc (mon_fire e s) t = W_woken \<or> mpc (mon_fire e s) t = W313"
  proof (cases "e = MStep t")
    case True
    with assms show ?thesis
      by (auto simp: mon_fire_def mon_step_def mon_aux_defs split: option.splits)
  next
    case False
    from mon_fire_own_pc [OF this, of s] assms show ?thesis by auto
  qed
  with assms show ?thesis
    by (auto simp: mon_step_def mon_aux_defs split: option.splits)
qed

text \<open>
  Claim C8 fails as stated for a caller in interrupt context. Thread 0 acquires the lock,
  enters interrupt context and calls \<open>cv_wait\<close>: it releases the lock and
  sleeps; thread 1 acquires the lock, signals and releases the lock; thread 0 wakes,
  reacquires and releases the guard of the condition variable and enters
  \<open>lock_acquire\<close>, where the assertion of line 201 halts the kernel.
  \<open>cv_wait\<close> has not reacquired the lock and does not return.
\<close>

theorem cv_wait_in_interrupt_context_counterexample:
  "lock_do_i_hold (lk (mon_run run_acquire (mon_boot ''l'' ''c''))) 0 \<and>
   m_in_interrupt (mon_run run_wait_in_interrupt (mon_boot ''l'' ''c'')) 0 = True \<and>
   mpc (mon_run (run_wait_in_interrupt @ [MStep 0]) (mon_boot ''l'' ''c'')) 0 = W_asleep \<and>
   m_panicked (mon_run run_wait_in_interrupt_woken (mon_boot ''l'' ''c'')) = False \<and>
   mpc (mon_run run_wait_in_interrupt_woken (mon_boot ''l'' ''c'')) 0 = A201 CvWait \<and>
   m_panicked (mon_run (run_wait_in_interrupt_woken @ [MStep 0]) (mon_boot ''l'' ''c'')) = True
     \<and>
   mpc (mon_run (run_wait_in_interrupt_woken @ [MStep 0]) (mon_boot ''l'' ''c'')) 0
     = A201 CvWait \<and>
   lock_do_i_hold (lk (mon_run (run_wait_in_interrupt_woken @ [MStep 0]) (mon_boot ''l'' ''c''))) 0
     = False \<and>
   curr_user (lk (mon_run (run_wait_in_interrupt_woken @ [MStep 0]) (mon_boot ''l'' ''c'')))
     = None"
  by (simp add: run_wait_in_interrupt_woken_def run_wait_in_interrupt_def run_acquire_def
      run_acquire_midway_def mon_eval)

text \<open>
  Claim C8, amended: \<open>cv_wait\<close> called by a thread \<open>t\<close> that holds
  the supplied lock and is not in interrupt context when it reaches
  \<open>lock_acquire\<close>. In every reachable state in which the kernel runs, the other
  threads doing whatever they do between the statements of \<open>t\<close> (short of
  halting the kernel): if \<open>t\<close> is idle, holds the lock and calls
  \<open>cv_wait\<close>, its first three statements pass the three assertions (that of line
  302 passes exactly for a holder of the lock) and bring it to line 308, still the owner;
  there it takes the guard of the condition variable (spinning while another thread holds
  it); with that guard held throughout it runs \<open>lock_release\<close>, whose assertions
  pass, which takes the guard of the lock and leaves the lock free and ownerless and the
  condition variable untouched; at line 312 it enqueues itself on the wait-channel of the
  condition variable and releases the guard in one step; it stays asleep until another
  thread wakes it; it reacquires the guard (line 312), releases it (line 313) and enters
  \<open>lock_acquire\<close>, whose two assertions pass; it takes the guard of the lock; as
  long as it finds the lock held at the loop test it sleeps on the wait-channel of the lock
  until woken, and when it finds the lock free its next four statements make it the owner,
  release the guard and return. None of these statements of \<open>t\<close> halts the
  kernel. Whenever \<open>cv_wait\<close> returns, it does so from line 214 of
  \<open>lock_acquire\<close>, and \<open>lock_do_i_hold\<close> is true for
  \<open>t\<close> in the state it returns in.
\<close>

theorem cv_wait_releases_sleeps_reacquires:
  assumes "s = mon_run es (mon_boot lname cname)" and "\<not> m_panicked s"
  shows
    "(mpc s t = MonIdle \<and> lock_do_i_hold (lk s) t \<and>
      mon_aside t es0 (mon_fire (MCall t (OpWait PTR PTR)) s) \<and>
      mon_asides t [es1, es2, es3] (mon_run es0 (mon_fire (MCall t (OpWait PTR PTR)) s))
        \<longrightarrow>
        mpc (mon_turns t [es1, es2, es3] (mon_run es0 (mon_fire (MCall t (OpWait PTR PTR)) s))) t
          = W308 \<and>
        \<not> m_panicked
            (mon_turns t [es1, es2, es3] (mon_run es0 (mon_fire (MCall t (OpWait PTR PTR)) s)))
              \<and>
        lock_do_i_hold
          (lk (mon_turns t [es1, es2, es3]
                (mon_run es0 (mon_fire (MCall t (OpWait PTR PTR)) s)))) t) \<and>
     (mpc s t = W302 \<longrightarrow>
        m_panicked (mon_step t s) = (\<not> lock_do_i_hold (lk s) t) \<and>
        (lock_do_i_hold (lk s) t \<longrightarrow> mon_step t s = s\<lparr>mpc := (mpc s)(t :=
          W308)\<rparr>)) \<and>
     (mpc s t = W308 \<longrightarrow>
        lock_do_i_hold (lk s) t \<and>
        (control_spinlock (cond s) = None \<longrightarrow>
           mon_step t s = s\<lparr>cond := (cond s)\<lparr>control_spinlock := Some t\<rparr>,
                            mpc := (mpc s)(t := R223 PTR CvWait)\<rparr>) \<and>
        (control_spinlock (cond s) \<noteq> None \<longrightarrow> mon_step t s = s)) \<and>
     (mpc s t = R223 p CvWait \<and> mon_asides t [es1, es2] s \<longrightarrow>
        control_spinlock (cond s) = Some t \<and>
        mpc (mon_turns t [es1, es2] s) t = R225 CvWait \<and>
        \<not> m_panicked (mon_turns t [es1, es2] s) \<and>
        lock_do_i_hold (lk (mon_turns t [es1, es2] s)) t \<and>
        cond (mon_turns t [es1, es2] s) = cond s) \<and>
     (mpc s t = R225 CvWait \<longrightarrow>
        control_spinlock (cond s) = Some t \<and> lock_do_i_hold (lk s) t \<and>
        (lock_lock (lk s) = None \<longrightarrow>
           mon_step t s = s\<lparr>lk := (lk s)\<lparr>lock_lock := Some t\<rparr>,
                            mpc := (mpc s)(t := R226 CvWait)\<rparr>) \<and>
        (lock_lock (lk s) \<noteq> None \<longrightarrow> mon_step t s = s)) \<and>
     (mpc s t = R226 CvWait \<and> mon_asides t [es1, es2, es3, []] s \<longrightarrow>
        control_spinlock (cond s) = Some t \<and>
        lk (mon_turns t [es1, es2, es3, []] s)
          = (lk s)\<lparr>curr_user := None, free := True,
                    lock_wchan := tl (lock_wchan (lk s)), lock_lock := None\<rparr> \<and>
        mpc (mon_turns t [es1, es2, es3, []] s) t = W312 \<and>
        cond (mon_turns t [es1, es2, es3, []] s) = cond s \<and>
        \<not> m_panicked (mon_turns t [es1, es2, es3, []] s)) \<and>
     (mpc s t = W312 \<longrightarrow>
        control_spinlock (cond s) = Some t \<and>
        mon_step t s =
          s\<lparr>cond := (cond s)\<lparr>control_wchan := control_wchan (cond s) @ [t],
                              control_spinlock := None\<rparr>,
            mpc := (mpc s)(t := W_asleep)\<rparr>) \<and>
     (mpc s t = W_asleep \<longrightarrow>
        t \<in> set (control_wchan (cond s)) \<and> mon_step t s = s \<and>
        (mpc (mon_fire e s) t = W_asleep \<or> mpc (mon_fire e s) t = W_woken)) \<and>
     (mpc s t = W_woken \<longrightarrow>
        (mpc (mon_fire e s) t = W_woken \<or> mpc (mon_fire e s) t = W313) \<and>
        (control_spinlock (cond s) = None \<longrightarrow>
           mon_step t s = s\<lparr>cond := (cond s)\<lparr>control_spinlock := Some t\<rparr>,
                            mpc := (mpc s)(t := W313)\<rparr>) \<and>
        (control_spinlock (cond s) \<noteq> None \<longrightarrow> mon_step t s = s)) \<and>
     (mpc s t = W313 \<longrightarrow>
        control_spinlock (cond s) = Some t \<and>
        mon_step t s =
          s\<lparr>cond := (cond s)\<lparr>control_spinlock := None\<rparr>,
            mpc := (mpc s)(t := A200 PTR CvWait)\<rparr>) \<and>
     (mpc s t = A200 p CvWait \<and> m_in_interrupt s t = False \<and>
      mon_asides t [es1, es2] s \<and> MIrq t True \<notin> set es1 \<longrightarrow>
        mpc (mon_turns t [es1, es2] s) t = A203 CvWait \<and>
        \<not> m_panicked (mon_turns t [es1, es2] s)) \<and>
     (mpc s t = A203 CvWait \<or> mpc s t = A_woken CvWait \<longrightarrow>
        (lock_lock (lk s) = None \<longrightarrow>
           mon_step t s = s\<lparr>lk := (lk s)\<lparr>lock_lock := Some t\<rparr>,
                            mpc := (mpc s)(t := A205 CvWait)\<rparr>) \<and>
        (lock_lock (lk s) \<noteq> None \<longrightarrow> mon_step t s = s)) \<and>
     (mpc s t = A205 CvWait \<and> free (lk s) = False \<and> mon_asides t [es1, []] s
       \<longrightarrow>
        lk (mon_turns t [es1, []] s)
          = (lk s)\<lparr>lock_wchan := lock_wchan (lk s) @ [t], lock_lock := None\<rparr> \<and>
        mpc (mon_turns t [es1, []] s) t = A_asleep CvWait \<and>
        \<not> m_panicked (mon_turns t [es1, []] s)) \<and>
     (mpc s t = A_asleep CvWait \<longrightarrow>
        t \<in> set (lock_wchan (lk s)) \<and> mon_step t s = s \<and>
        (mpc (mon_fire e s) t = A_asleep CvWait \<or> mpc (mon_fire e s) t = A_woken CvWait)) \<and>
     (mpc s t = A205 CvWait \<and> free (lk s) = True \<and>
      mon_asides t [es1, es2, es3, []] s \<longrightarrow>
        lk (mon_turns t [es1, es2, es3, []] s)
          = (lk s)\<lparr>curr_user := Some t, free := False, lock_lock := None\<rparr> \<and>
        mpc (mon_turns t [es1, es2, es3, []] s) t = MonIdle \<and>
        \<not> m_panicked (mon_turns t [es1, es2, es3, []] s) \<and>
        lock_do_i_hold (lk (mon_turns t [es1, es2, es3, []] s)) t) \<and>
     (in_cv_wait (mpc s t) \<and> mpc (mon_fire e s) t = MonIdle \<longrightarrow>
        mpc s t = A214 CvWait \<and> e = MStep t \<and>
        lock_do_i_hold (lk (mon_fire e s)) t \<and> lock_lock (lk (mon_fire e s)) = None)"
proof -
  have inv: "mon_inv s"
    unfolding assms by (rule mon_inv_reachable)
  have wf: "pc_wf (mpc s t)"
    using mon_pc_inv_reachable [of es lname cname] by (simp add: assms(1) mon_pc_inv_def)
  have C: "(control_spinlock (cond s) = Some t) = cv_guarded (mpc s t)"
    using inv by (simp add: mon_inv_def mon_cv_inv_def)
  have E: "lk_sees (lk_view_of (mpc s t)) t (lk s)"
    using inv by (simp add: mon_inv_def mon_field_inv_def)
  have c1: "mpc s t = MonIdle \<and> lock_do_i_hold (lk s) t \<and>
      mon_aside t es0 (mon_fire (MCall t (OpWait PTR PTR)) s) \<and>
      mon_asides t [es1, es2, es3] (mon_run es0 (mon_fire (MCall t (OpWait PTR PTR)) s))
        \<longrightarrow>
        mpc (mon_turns t [es1, es2, es3] (mon_run es0 (mon_fire (MCall t (OpWait PTR PTR)) s))) t
          = W308 \<and>
        \<not> m_panicked
            (mon_turns t [es1, es2, es3] (mon_run es0 (mon_fire (MCall t (OpWait PTR PTR)) s)))
              \<and>
        lock_do_i_hold
          (lk (mon_turns t [es1, es2, es3]
                (mon_run es0 (mon_fire (MCall t (OpWait PTR PTR)) s)))) t"
  proof (intro impI, elim conjE)
    assume h: "mpc s t = MonIdle" "lock_do_i_hold (lk s) t"
      "mon_aside t es0 (mon_fire (MCall t (OpWait PTR PTR)) s)"
      "mon_asides t [es1, es2, es3] (mon_run es0 (mon_fire (MCall t (OpWait PTR PTR)) s))"
    note call = mon_call_frame [OF inv assms(2) h(1,3)]
    from call(1-4) h(2)
      mon_wait_entry [of "mon_run es0 (mon_fire (MCall t (OpWait PTR PTR)) s)" t,
        OF _ _ _ _ h(4)]
    show "mpc (mon_turns t [es1, es2, es3] (mon_run es0 (mon_fire (MCall t (OpWait PTR PTR)) s))) t
          = W308 \<and>
        \<not> m_panicked
            (mon_turns t [es1, es2, es3] (mon_run es0 (mon_fire (MCall t (OpWait PTR PTR)) s)))
              \<and>
        lock_do_i_hold
          (lk (mon_turns t [es1, es2, es3]
                (mon_run es0 (mon_fire (MCall t (OpWait PTR PTR)) s)))) t"
      by simp
  qed
  have c1b: "mpc s t = W302 \<longrightarrow>
        m_panicked (mon_step t s) = (\<not> lock_do_i_hold (lk s) t) \<and>
        (lock_do_i_hold (lk s) t \<longrightarrow> mon_step t s = s\<lparr>mpc := (mpc s)(t :=
          W308)\<rparr>)"
    using assms(2) by (simp add: mon_step_def mon_aux_defs)
  have c2: "mpc s t = W308 \<longrightarrow>
        lock_do_i_hold (lk s) t \<and>
        (control_spinlock (cond s) = None \<longrightarrow>
           mon_step t s = s\<lparr>cond := (cond s)\<lparr>control_spinlock := Some t\<rparr>,
                            mpc := (mpc s)(t := R223 PTR CvWait)\<rparr>) \<and>
        (control_spinlock (cond s) \<noteq> None \<longrightarrow> mon_step t s = s)"
    using E by (auto simp: mon_step_def mon_aux_defs lock_do_i_hold_def)
  have c3: "mpc s t = R223 p CvWait \<and> mon_asides t [es1, es2] s \<longrightarrow>
        control_spinlock (cond s) = Some t \<and>
        mpc (mon_turns t [es1, es2] s) t = R225 CvWait \<and>
        \<not> m_panicked (mon_turns t [es1, es2] s) \<and>
        lock_do_i_hold (lk (mon_turns t [es1, es2] s)) t \<and>
        cond (mon_turns t [es1, es2] s) = cond s"
    using E C wf mon_release_entry [OF inv assms(2), of t CvWait es1 es2]
    by (auto simp: lock_do_i_hold_def simp del: mon_turns.simps mon_asides.simps
        split: if_splits)
  have c4: "mpc s t = R225 CvWait \<longrightarrow>
        control_spinlock (cond s) = Some t \<and> lock_do_i_hold (lk s) t \<and>
        (lock_lock (lk s) = None \<longrightarrow>
           mon_step t s = s\<lparr>lk := (lk s)\<lparr>lock_lock := Some t\<rparr>,
                            mpc := (mpc s)(t := R226 CvWait)\<rparr>) \<and>
        (lock_lock (lk s) \<noteq> None \<longrightarrow> mon_step t s = s)"
    using E C by (auto simp: mon_step_def mon_aux_defs lock_do_i_hold_def)
  have c5: "mpc s t = R226 CvWait \<and> mon_asides t [es1, es2, es3, []] s \<longrightarrow>
        control_spinlock (cond s) = Some t \<and>
        lk (mon_turns t [es1, es2, es3, []] s)
          = (lk s)\<lparr>curr_user := None, free := True,
                    lock_wchan := tl (lock_wchan (lk s)), lock_lock := None\<rparr> \<and>
        mpc (mon_turns t [es1, es2, es3, []] s) t = W312 \<and>
        cond (mon_turns t [es1, es2, es3, []] s) = cond s \<and>
        \<not> m_panicked (mon_turns t [es1, es2, es3, []] s)"
    using C mon_release_commit [OF inv assms(2), of t CvWait es1 es2 es3]
    by (simp del: mon_turns.simps mon_asides.simps)
  have c6: "mpc s t = W312 \<longrightarrow>
        control_spinlock (cond s) = Some t \<and>
        mon_step t s =
          s\<lparr>cond := (cond s)\<lparr>control_wchan := control_wchan (cond s) @ [t],
                              control_spinlock := None\<rparr>,
            mpc := (mpc s)(t := W_asleep)\<rparr>"
    using C by (simp add: mon_step_def mon_aux_defs)
  have c7: "mpc s t = W_asleep \<longrightarrow>
        t \<in> set (control_wchan (cond s)) \<and> mon_step t s = s \<and>
        (mpc (mon_fire e s) t = W_asleep \<or> mpc (mon_fire e s) t = W_woken)"
    using cv_asleep_fire [OF inv, of t e] by simp
  have c8: "mpc s t = W_woken \<longrightarrow>
        (mpc (mon_fire e s) t = W_woken \<or> mpc (mon_fire e s) t = W313) \<and>
        (control_spinlock (cond s) = None \<longrightarrow>
           mon_step t s = s\<lparr>cond := (cond s)\<lparr>control_spinlock := Some t\<rparr>,
                            mpc := (mpc s)(t := W313)\<rparr>) \<and>
        (control_spinlock (cond s) \<noteq> None \<longrightarrow> mon_step t s = s)"
    using cv_woken_fire [of s t e] by simp
  have c9: "mpc s t = W313 \<longrightarrow>
        control_spinlock (cond s) = Some t \<and>
        mon_step t s =
          s\<lparr>cond := (cond s)\<lparr>control_spinlock := None\<rparr>,
            mpc := (mpc s)(t := A200 PTR CvWait)\<rparr>"
    using C by (simp add: mon_step_def mon_aux_defs)
  have c10: "mpc s t = A200 p CvWait \<and> m_in_interrupt s t = False \<and>
      mon_asides t [es1, es2] s \<and> MIrq t True \<notin> set es1 \<longrightarrow>
        mpc (mon_turns t [es1, es2] s) t = A203 CvWait \<and>
        \<not> m_panicked (mon_turns t [es1, es2] s)"
    using wf mon_acquire_entry [OF inv assms(2), of t CvWait es1 es2]
    by (auto simp del: mon_turns.simps mon_asides.simps)
  have c11: "mpc s t = A203 CvWait \<or> mpc s t = A_woken CvWait \<longrightarrow>
        (lock_lock (lk s) = None \<longrightarrow>
           mon_step t s = s\<lparr>lk := (lk s)\<lparr>lock_lock := Some t\<rparr>,
                            mpc := (mpc s)(t := A205 CvWait)\<rparr>) \<and>
        (lock_lock (lk s) \<noteq> None \<longrightarrow> mon_step t s = s)"
    by (auto simp: mon_step_def mon_aux_defs)
  have c12: "mpc s t = A205 CvWait \<and> free (lk s) = False \<and> mon_asides t [es1, []] s
    \<longrightarrow>
        lk (mon_turns t [es1, []] s)
          = (lk s)\<lparr>lock_wchan := lock_wchan (lk s) @ [t], lock_lock := None\<rparr> \<and>
        mpc (mon_turns t [es1, []] s) t = A_asleep CvWait \<and>
        \<not> m_panicked (mon_turns t [es1, []] s)"
    using mon_acquire_sleep [OF inv assms(2), of t CvWait es1]
    by (simp del: mon_turns.simps mon_asides.simps)
  have c13: "mpc s t = A_asleep CvWait \<longrightarrow>
        t \<in> set (lock_wchan (lk s)) \<and> mon_step t s = s \<and>
        (mpc (mon_fire e s) t = A_asleep CvWait \<or> mpc (mon_fire e s) t = A_woken CvWait)"
    using mon_acquire_asleep_fire [OF inv, of t CvWait e] by simp
  have c14: "mpc s t = A205 CvWait \<and> free (lk s) = True \<and>
      mon_asides t [es1, es2, es3, []] s \<longrightarrow>
        lk (mon_turns t [es1, es2, es3, []] s)
          = (lk s)\<lparr>curr_user := Some t, free := False, lock_lock := None\<rparr> \<and>
        mpc (mon_turns t [es1, es2, es3, []] s) t = MonIdle \<and>
        \<not> m_panicked (mon_turns t [es1, es2, es3, []] s) \<and>
        lock_do_i_hold (lk (mon_turns t [es1, es2, es3, []] s)) t"
    using mon_acquire_commit [OF inv assms(2), of t CvWait es1 es2 es3]
    by (simp add: lock_do_i_hold_def del: mon_turns.simps mon_asides.simps)
  have c15: "in_cv_wait (mpc s t) \<and> mpc (mon_fire e s) t = MonIdle \<longrightarrow>
        mpc s t = A214 CvWait \<and> e = MStep t \<and>
        lock_do_i_hold (lk (mon_fire e s)) t \<and> lock_lock (lk (mon_fire e s)) = None"
    using cv_wait_returns_owner [OF inv, of t e] by simp
  show ?thesis
    by (intro conjI) (fact c1 c1b c2 c3 c4 c5 c6 c7 c8 c9 c10 c11 c12 c13 c14 c15)+
qed

theorem cv_wait_releases_sleeps_reacquires_witness:
  "mpc (mon_run run_acquire (mon_boot ''l'' ''c'')) 0 = MonIdle \<and>
   lock_do_i_hold (lk (mon_run run_acquire (mon_boot ''l'' ''c''))) 0 \<and>
   mpc (mon_turns 0 [[MStep 1], [MIrq 1 True], []]
       (mon_run [MCall 1 (OpAcquire PTR)] (mon_fire (MCall 0 (OpWait PTR PTR)) (mon_run run_acquire
         (mon_boot ''l'' ''c''))))) 0 = W308 \<and>
   lock_do_i_hold (lk (mon_turns 0 [[MStep 1], [MIrq 1 True], []]
       (mon_run [MCall 1 (OpAcquire PTR)] (mon_fire (MCall 0 (OpWait PTR PTR)) (mon_run run_acquire
         (mon_boot ''l'' ''c'')))))) 0 \<and>
   mpc (mon_run run_wait_entry (mon_boot ''l'' ''c'')) 0 = W302 \<and>
   mpc (mon_step 0 (mon_run run_wait_entry (mon_boot ''l'' ''c''))) 0 = W308 \<and>
   \<not> m_panicked (mon_step 0 (mon_run run_wait_entry (mon_boot ''l'' ''c''))) \<and>
   mpc (mon_run run_wait_line308 (mon_boot ''l'' ''c'')) 0 = W308 \<and>
   lock_do_i_hold (lk (mon_run run_wait_line308 (mon_boot ''l'' ''c''))) 0 \<and>
   mpc (mon_step 0 (mon_run run_wait_line308 (mon_boot ''l'' ''c''))) 0 = R223 PTR CvWait \<and>
   mpc (mon_run (run_wait_line308 @ [MStep 0]) (mon_boot ''l'' ''c'')) 0 = R223 PTR CvWait \<and>
   control_spinlock (cond (mon_run (run_wait_line308 @ [MStep 0]) (mon_boot ''l'' ''c''))) = Some 0
     \<and>
   mpc (mon_turns 0 [[MCall 1 (OpSignal PTR PTR)], [MStep 1]] (mon_run (run_wait_line308 @ [MStep
     0]) (mon_boot ''l'' ''c''))) 0 = R225 CvWait \<and>
   lock_do_i_hold (lk (mon_turns 0 [[MCall 1 (OpSignal PTR PTR)], [MStep 1]] (mon_run
     (run_wait_line308 @ [MStep 0]) (mon_boot ''l'' ''c'')))) 0 \<and>
   mpc (mon_run (run_wait_line308 @ [MStep 0, MStep 0, MStep 0]) (mon_boot ''l'' ''c'')) 0 = R225
     CvWait \<and>
   control_spinlock (cond (mon_run (run_wait_line308 @ [MStep 0, MStep 0, MStep 0]) (mon_boot ''l''
     ''c''))) = Some 0 \<and>
   mpc (mon_step 0 (mon_run (run_wait_line308 @ [MStep 0, MStep 0, MStep 0]) (mon_boot ''l''
     ''c''))) 0 = R226 CvWait \<and>
   mpc (mon_run run_wait_line226 (mon_boot ''l'' ''c'')) 0 = R226 CvWait \<and>
   mpc (mon_turns 0 [[MCall 1 (OpSignal PTR PTR)], [MStep 1], [MIrq 1 True], []] (mon_run
     run_wait_line226 (mon_boot ''l'' ''c''))) 0
      = W312 \<and>
   free (lk (mon_turns 0 [[MCall 1 (OpSignal PTR PTR)], [MStep 1], [MIrq 1 True], []] (mon_run
     run_wait_line226 (mon_boot ''l'' ''c''))))
      = True \<and>
   curr_user (lk (mon_turns 0 [[MCall 1 (OpSignal PTR PTR)], [MStep 1], [MIrq 1 True], []] (mon_run
     run_wait_line226 (mon_boot ''l'' ''c''))))
      = None \<and>
   mpc (mon_run (run_wait_line226 @ [MStep 0, MStep 0, MStep 0, MStep 0]) (mon_boot ''l'' ''c'')) 0
     = W312 \<and>
   control_spinlock (cond (mon_run (run_wait_line226 @ [MStep 0, MStep 0, MStep 0, MStep 0])
     (mon_boot ''l'' ''c''))) = Some 0 \<and>
   mpc (mon_step 0 (mon_run (run_wait_line226 @ [MStep 0, MStep 0, MStep 0, MStep 0]) (mon_boot
     ''l'' ''c''))) 0 = W_asleep \<and>
   control_spinlock (cond (mon_step 0 (mon_run (run_wait_line226 @ [MStep 0, MStep 0, MStep 0,
     MStep 0]) (mon_boot ''l'' ''c'')))) = None \<and>
   mpc (mon_run run_wait_asleep (mon_boot ''l'' ''c'')) 0 = W_asleep \<and>
   0 \<in> set (control_wchan (cond (mon_run run_wait_asleep (mon_boot ''l'' ''c'')))) \<and>
   mon_step 0 (mon_run run_wait_asleep (mon_boot ''l'' ''c'')) = (mon_run run_wait_asleep (mon_boot
     ''l'' ''c'')) \<and>
   mpc (mon_run run_wait_signalled (mon_boot ''l'' ''c'')) 0 = W_woken \<and>
   mpc (mon_step 0 (mon_run run_wait_signalled (mon_boot ''l'' ''c''))) 0 = W313 \<and>
   mpc (mon_run (run_wait_signalled @ [MStep 0]) (mon_boot ''l'' ''c'')) 0 = W313 \<and>
   mpc (mon_step 0 (mon_run (run_wait_signalled @ [MStep 0]) (mon_boot ''l'' ''c''))) 0 = A200 PTR
     CvWait \<and>
   control_spinlock (cond (mon_step 0 (mon_run (run_wait_signalled @ [MStep 0]) (mon_boot ''l''
     ''c'')))) = None \<and>
   mpc (mon_run (run_wait_signalled @ [MStep 0, MStep 0]) (mon_boot ''l'' ''c'')) 0 = A200 PTR
     CvWait \<and>
   mpc (mon_turns 0 [[MIrq 1 True], [MCall 1 (OpAcquire PTR)]] (mon_run (run_wait_signalled @
     [MStep 0, MStep 0]) (mon_boot ''l'' ''c''))) 0 = A203 CvWait \<and>
   \<not> m_panicked (mon_turns 0 [[MIrq 1 True], [MCall 1 (OpAcquire PTR)]] (mon_run
     (run_wait_signalled @ [MStep 0, MStep 0]) (mon_boot ''l'' ''c''))) \<and>
   mpc (mon_run (run_wait_signalled @ [MStep 0, MStep 0, MStep 0, MStep 0]) (mon_boot ''l'' ''c''))
     0 = A203 CvWait \<and>
   mpc (mon_step 0 (mon_run (run_wait_signalled @ [MStep 0, MStep 0, MStep 0, MStep 0]) (mon_boot
     ''l'' ''c''))) 0 = A205 CvWait \<and>
   mpc (mon_run run_wait_line205 (mon_boot ''l'' ''c'')) 0 = A205 CvWait \<and>
   free (lk (mon_run run_wait_line205 (mon_boot ''l'' ''c''))) = True \<and>
   mpc (mon_turns 0 [[MCall 1 (OpAcquire PTR)], [MStep 1], [MIrq 1 True], []] (mon_run
     run_wait_line205 (mon_boot ''l'' ''c''))) 0
      = MonIdle \<and>
   lock_do_i_hold
      (lk (mon_turns 0 [[MCall 1 (OpAcquire PTR)], [MStep 1], [MIrq 1 True], []] (mon_run
        run_wait_line205 (mon_boot ''l'' ''c'')))) 0 \<and>
   mpc (mon_run run_wait_lock_busy (mon_boot ''l'' ''c'')) 0 = A205 CvWait \<and>
   free (lk (mon_run run_wait_lock_busy (mon_boot ''l'' ''c''))) = False \<and>
   mpc (mon_turns 0 [[MIrq 1 True], []] (mon_run run_wait_lock_busy (mon_boot ''l'' ''c''))) 0 =
     A_asleep CvWait \<and>
   lock_lock (lk (mon_turns 0 [[MIrq 1 True], []] (mon_run run_wait_lock_busy (mon_boot ''l''
     ''c'')))) = None \<and>
   mpc (mon_run (run_wait_lock_busy @ [MStep 0, MStep 0]) (mon_boot ''l'' ''c'')) 0 = A_asleep
     CvWait \<and>
   0 \<in> set (lock_wchan (lk (mon_run (run_wait_lock_busy @ [MStep 0, MStep 0]) (mon_boot ''l''
     ''c'')))) \<and>
   mpc (mon_run run_wait_return (mon_boot ''l'' ''c'')) 0 = A214 CvWait \<and>
   mpc (mon_fire (MStep 0) (mon_run run_wait_return (mon_boot ''l'' ''c''))) 0 = MonIdle \<and>
   lock_do_i_hold (lk (mon_fire (MStep 0) (mon_run run_wait_return (mon_boot ''l'' ''c'')))) 0"
proof -
  define a0 where "a0 = mon_run run_acquire (mon_boot ''l'' ''c'')"
  define w2 where "w2 = mon_run run_wait_entry (mon_boot ''l'' ''c'')"
  define a1 where "a1 = mon_run run_wait_line308 (mon_boot ''l'' ''c'')"
  define a2 where "a2 = mon_run (run_wait_line308 @ [MStep 0]) (mon_boot ''l'' ''c'')"
  define a4 where "a4 = mon_run (run_wait_line308 @ [MStep 0, MStep 0, MStep 0]) (mon_boot ''l''
    ''c'')"
  define a5 where "a5 = mon_run run_wait_line226 (mon_boot ''l'' ''c'')"
  define a6 where "a6 = mon_run (run_wait_line226 @ [MStep 0, MStep 0, MStep 0, MStep 0]) (mon_boot
    ''l'' ''c'')"
  define b where "b = mon_run run_wait_asleep (mon_boot ''l'' ''c'')"
  define g where "g = mon_run run_wait_signalled (mon_boot ''l'' ''c'')"
  define g1 where "g1 = mon_run (run_wait_signalled @ [MStep 0]) (mon_boot ''l'' ''c'')"
  define g2 where "g2 = mon_run (run_wait_signalled @ [MStep 0, MStep 0]) (mon_boot ''l'' ''c'')"
  define g4 where "g4 = mon_run (run_wait_signalled @ [MStep 0, MStep 0, MStep 0, MStep 0])
    (mon_boot ''l'' ''c'')"
  define g5 where "g5 = mon_run run_wait_line205 (mon_boot ''l'' ''c'')"
  define k where "k = mon_run run_wait_lock_busy (mon_boot ''l'' ''c'')"
  define k2 where "k2 = mon_run (run_wait_lock_busy @ [MStep 0, MStep 0]) (mon_boot ''l'' ''c'')"
  define r where "r = mon_run run_wait_return (mon_boot ''l'' ''c'')"
  note runs = run_wait_return_def run_wait_line205_def run_wait_signalled_def
    run_wait_lock_busy_def run_wait_asleep_def run_wait_line226_def run_wait_line308_def
    run_wait_entry_def run_acquire_def run_acquire_midway_def
  have ea0: "\<not> m_panicked a0"
    "mpc a0 0 = MonIdle"
    "lock_do_i_hold (lk a0) 0"
    "mon_aside 0 [MCall 1 (OpAcquire PTR)] (mon_fire (MCall 0 (OpWait PTR PTR)) a0)"
    "mon_asides 0 [[MStep 1], [MIrq 1 True], []]
       (mon_run [MCall 1 (OpAcquire PTR)] (mon_fire (MCall 0 (OpWait PTR PTR)) a0))"
    by (simp_all add: a0_def runs mon_aside_def mon_eval)
  have ra0: "mpc (mon_turns 0 [[MStep 1], [MIrq 1 True], []]
       (mon_run [MCall 1 (OpAcquire PTR)] (mon_fire (MCall 0 (OpWait PTR PTR)) a0))) 0 = W308"
    "lock_do_i_hold (lk (mon_turns 0 [[MStep 1], [MIrq 1 True], []]
       (mon_run [MCall 1 (OpAcquire PTR)] (mon_fire (MCall 0 (OpWait PTR PTR)) a0)))) 0"
    using cv_wait_releases_sleeps_reacquires
      [OF a0_def ea0(1), where t = 0 and ?es0.0 = "[MCall 1 (OpAcquire PTR)]" and ?es1.0 = "[MStep
        1]"
        and ?es2.0 = "[MIrq 1 True]" and ?es3.0 = "[]" and p = PTR and e = "MStep 1"] ea0
    by (auto simp del: mon_turns.simps mon_asides.simps)
  have ew2: "\<not> m_panicked w2"
    "mpc w2 0 = W302"
    "lock_do_i_hold (lk w2) 0"
    by (simp_all add: w2_def runs mon_aside_def mon_eval)
  have rw2: "mpc (mon_step 0 w2) 0 = W308"
    "\<not> m_panicked (mon_step 0 w2)"
    using cv_wait_releases_sleeps_reacquires
      [OF w2_def ew2(1), where t = 0 and ?es0.0 = "[]" and ?es1.0 = "[]"
        and ?es2.0 = "[]" and ?es3.0 = "[]" and p = PTR and e = "MStep 1"] ew2
    by (auto simp del: mon_turns.simps mon_asides.simps)
  have ea1: "\<not> m_panicked a1"
    "mpc a1 0 = W308"
    "control_spinlock (cond a1) = None"
    by (simp_all add: a1_def runs mon_aside_def mon_eval)
  have ra1: "lock_do_i_hold (lk a1) 0"
    "mpc (mon_step 0 a1) 0 = R223 PTR CvWait"
    using cv_wait_releases_sleeps_reacquires
      [OF a1_def ea1(1), where t = 0 and ?es0.0 = "[]" and ?es1.0 = "[]" and ?es2.0 = "[]"
        and ?es3.0 = "[]" and p = PTR and e = "MStep 1"] ea1
    by (auto simp del: mon_turns.simps mon_asides.simps)
  have ea2: "\<not> m_panicked a2"
    "mpc a2 0 = R223 PTR CvWait"
    "mon_asides 0 [[MCall 1 (OpSignal PTR PTR)], [MStep 1]] a2"
    by (simp_all add: a2_def runs mon_aside_def mon_eval)
  have ra2: "control_spinlock (cond a2) = Some 0"
    "mpc (mon_turns 0 [[MCall 1 (OpSignal PTR PTR)], [MStep 1]] a2) 0 = R225 CvWait"
    "lock_do_i_hold (lk (mon_turns 0 [[MCall 1 (OpSignal PTR PTR)], [MStep 1]] a2)) 0"
    using cv_wait_releases_sleeps_reacquires
      [OF a2_def ea2(1), where t = 0 and p = PTR and ?es1.0 = "[MCall 1 (OpSignal PTR PTR)]"
        and ?es2.0 = "[MStep 1]" and ?es0.0 = "[]" and ?es3.0 = "[]" and e = "MStep 1"] ea2
    by (auto simp del: mon_turns.simps mon_asides.simps)
  have ea4: "\<not> m_panicked a4"
    "mpc a4 0 = R225 CvWait"
    "lock_lock (lk a4) = None"
    by (simp_all add: a4_def runs mon_aside_def mon_eval)
  have ra4: "control_spinlock (cond a4) = Some 0"
    "mpc (mon_step 0 a4) 0 = R226 CvWait"
    using cv_wait_releases_sleeps_reacquires
      [OF a4_def ea4(1), where t = 0 and ?es0.0 = "[]" and ?es1.0 = "[]"
        and ?es2.0 = "[]" and ?es3.0 = "[]" and p = PTR and e = "MStep 1"] ea4
    by (auto simp del: mon_turns.simps mon_asides.simps)
  have ea5: "\<not> m_panicked a5"
    "mpc a5 0 = R226 CvWait"
    "mon_asides 0 [[MCall 1 (OpSignal PTR PTR)], [MStep 1], [MIrq 1 True], []] a5"
    by (simp_all add: a5_def runs mon_aside_def mon_eval)
  have ra5: "mpc (mon_turns 0 [[MCall 1 (OpSignal PTR PTR)], [MStep 1], [MIrq 1 True], []] a5) 0
      = W312"
    "free (lk (mon_turns 0 [[MCall 1 (OpSignal PTR PTR)], [MStep 1], [MIrq 1 True], []] a5))
      = True"
    "curr_user (lk (mon_turns 0 [[MCall 1 (OpSignal PTR PTR)], [MStep 1], [MIrq 1 True], []] a5))
      = None"
    using cv_wait_releases_sleeps_reacquires
      [OF a5_def ea5(1), where t = 0 and ?es1.0 = "[MCall 1 (OpSignal PTR PTR)]" and ?es2.0 =
        "[MStep 1]"
        and ?es3.0 = "[MIrq 1 True]" and ?es0.0 = "[]" and p = PTR and e = "MStep 1"] ea5
    by (auto simp del: mon_turns.simps mon_asides.simps)
  have ea6: "\<not> m_panicked a6"
    "mpc a6 0 = W312"
    by (simp_all add: a6_def runs mon_aside_def mon_eval)
  have ra6: "control_spinlock (cond a6) = Some 0"
    "mpc (mon_step 0 a6) 0 = W_asleep"
    "control_spinlock (cond (mon_step 0 a6)) = None"
    using cv_wait_releases_sleeps_reacquires
      [OF a6_def ea6(1), where t = 0 and ?es0.0 = "[]" and ?es1.0 = "[]" and ?es2.0 = "[]"
        and ?es3.0 = "[]" and p = PTR and e = "MStep 1"] ea6
    by (auto simp del: mon_turns.simps mon_asides.simps)
  have eb: "\<not> m_panicked b"
    "mpc b 0 = W_asleep"
    by (simp_all add: b_def runs mon_aside_def mon_eval)
  have rb: "0 \<in> set (control_wchan (cond b))"
    "mon_step 0 b = b"
    using cv_wait_releases_sleeps_reacquires
      [OF b_def eb(1), where t = 0 and e = "MStep 1" and ?es0.0 = "[]" and ?es1.0 = "[]"
        and ?es2.0 = "[]" and ?es3.0 = "[]" and p = PTR] eb
    by (auto simp del: mon_turns.simps mon_asides.simps)
  have eg: "\<not> m_panicked g"
    "mpc g 0 = W_woken"
    "control_spinlock (cond g) = None"
    by (simp_all add: g_def runs mon_aside_def mon_eval)
  have rg: "mpc (mon_step 0 g) 0 = W313"
    using cv_wait_releases_sleeps_reacquires
      [OF g_def eg(1), where t = 0 and e = "MStep 1" and ?es0.0 = "[]" and ?es1.0 = "[]"
        and ?es2.0 = "[]" and ?es3.0 = "[]" and p = PTR] eg
    by (auto simp del: mon_turns.simps mon_asides.simps)
  have eg1: "\<not> m_panicked g1"
    "mpc g1 0 = W313"
    by (simp_all add: g1_def runs mon_aside_def mon_eval)
  have rg1: "mpc (mon_step 0 g1) 0 = A200 PTR CvWait"
    "control_spinlock (cond (mon_step 0 g1)) = None"
    using cv_wait_releases_sleeps_reacquires
      [OF g1_def eg1(1), where t = 0 and ?es0.0 = "[]" and ?es1.0 = "[]" and ?es2.0 = "[]"
        and ?es3.0 = "[]" and p = PTR and e = "MStep 1"] eg1
    by (auto simp del: mon_turns.simps mon_asides.simps)
  have eg2: "\<not> m_panicked g2"
    "mpc g2 0 = A200 PTR CvWait"
    "m_in_interrupt g2 0 = False"
    "mon_asides 0 [[MIrq 1 True], [MCall 1 (OpAcquire PTR)]] g2"
    by (simp_all add: g2_def runs mon_aside_def mon_eval)
  have rg2: "mpc (mon_turns 0 [[MIrq 1 True], [MCall 1 (OpAcquire PTR)]] g2) 0 = A203 CvWait"
    "\<not> m_panicked (mon_turns 0 [[MIrq 1 True], [MCall 1 (OpAcquire PTR)]] g2)"
    using cv_wait_releases_sleeps_reacquires
      [OF g2_def eg2(1), where t = 0 and p = PTR and ?es1.0 = "[MIrq 1 True]"
        and ?es2.0 = "[MCall 1 (OpAcquire PTR)]" and ?es0.0 = "[]" and ?es3.0 = "[]"
        and e = "MStep 1"] eg2
    by (auto simp del: mon_turns.simps mon_asides.simps)
  have eg4: "\<not> m_panicked g4"
    "mpc g4 0 = A203 CvWait"
    "lock_lock (lk g4) = None"
    by (simp_all add: g4_def runs mon_aside_def mon_eval)
  have rg4: "mpc (mon_step 0 g4) 0 = A205 CvWait"
    using cv_wait_releases_sleeps_reacquires
      [OF g4_def eg4(1), where t = 0 and ?es0.0 = "[]" and ?es1.0 = "[]" and ?es2.0 = "[]"
        and ?es3.0 = "[]" and p = PTR and e = "MStep 1"] eg4
    by (auto simp del: mon_turns.simps mon_asides.simps)
  have eg5: "\<not> m_panicked g5"
    "mpc g5 0 = A205 CvWait"
    "free (lk g5) = True"
    "mon_asides 0 [[MCall 1 (OpAcquire PTR)], [MStep 1], [MIrq 1 True], []] g5"
    by (simp_all add: g5_def runs mon_aside_def mon_eval)
  have rg5: "mpc (mon_turns 0 [[MCall 1 (OpAcquire PTR)], [MStep 1], [MIrq 1 True], []] g5) 0
      = MonIdle"
    "lock_do_i_hold
      (lk (mon_turns 0 [[MCall 1 (OpAcquire PTR)], [MStep 1], [MIrq 1 True], []] g5)) 0"
    using cv_wait_releases_sleeps_reacquires
      [OF g5_def eg5(1), where t = 0 and ?es1.0 = "[MCall 1 (OpAcquire PTR)]" and ?es2.0 = "[MStep
        1]"
        and ?es3.0 = "[MIrq 1 True]" and ?es0.0 = "[]" and p = PTR and e = "MStep 1"] eg5
    by (auto simp del: mon_turns.simps mon_asides.simps)
  have ek: "\<not> m_panicked k"
    "mpc k 0 = A205 CvWait"
    "free (lk k) = False"
    "mon_asides 0 [[MIrq 1 True], []] k"
    by (simp_all add: k_def runs mon_aside_def mon_eval)
  have rk: "mpc (mon_turns 0 [[MIrq 1 True], []] k) 0 = A_asleep CvWait"
    "lock_lock (lk (mon_turns 0 [[MIrq 1 True], []] k)) = None"
    using cv_wait_releases_sleeps_reacquires
      [OF k_def ek(1), where t = 0 and ?es1.0 = "[MIrq 1 True]" and ?es0.0 = "[]" and ?es2.0 = "[]"
        and ?es3.0 = "[]" and p = PTR and e = "MStep 1"] ek
    by (auto simp del: mon_turns.simps mon_asides.simps)
  have ek2: "\<not> m_panicked k2"
    "mpc k2 0 = A_asleep CvWait"
    by (simp_all add: k2_def runs mon_aside_def mon_eval)
  have rk2: "0 \<in> set (lock_wchan (lk k2))"
    using cv_wait_releases_sleeps_reacquires
      [OF k2_def ek2(1), where t = 0 and e = "MStep 1" and ?es0.0 = "[]" and ?es1.0 = "[]"
        and ?es2.0 = "[]" and ?es3.0 = "[]" and p = PTR] ek2
    by (auto simp del: mon_turns.simps mon_asides.simps)
  have er: "\<not> m_panicked r"
    "mpc r 0 = A214 CvWait"
    "mpc (mon_fire (MStep 0) r) 0 = MonIdle"
    by (simp_all add: r_def runs mon_aside_def mon_eval)
  have rr: "lock_do_i_hold (lk (mon_fire (MStep 0) r)) 0"
    using cv_wait_releases_sleeps_reacquires
      [OF r_def er(1), where t = 0 and e = "MStep 0" and ?es0.0 = "[]" and ?es1.0 = "[]"
        and ?es2.0 = "[]" and ?es3.0 = "[]" and p = PTR] er
    by (auto simp del: mon_turns.simps mon_asides.simps)
  show ?thesis
    using ea0(2,3) ra0 ew2(2) rw2 ea1(2) ra1 ea2(2) ra2 ea4(2) ra4 ea5(2) ra5 ea6(2) ra6 eb(2) rb
      eg(2) rg
      eg1(2) rg1 eg2(2) rg2 eg4(2) rg4 eg5(2,3) rg5 ek(2,3) rk ek2(2) rk2 er(2,3) rr
    unfolding a0_def w2_def a1_def a2_def a4_def a5_def a6_def b_def g_def g1_def g2_def g4_def
      g5_def
      k_def k2_def r_def by simp
qed

lemma self_acquire_stuck_fire:
  assumes inv: "mon_inv s" and w: "acquire_waiting (mpc s t)" and own: "lock_do_i_hold (lk s) t"
  shows "acquire_waiting (mpc (mon_fire e s) t) \<and> lock_do_i_hold (lk (mon_fire e s)) t \<and>
         (mpc s t = A_asleep Client \<longrightarrow> mpc (mon_fire e s) t = A_asleep Client)"
proof -
  have E: "lk_sees (lk_view_of (mpc s u)) u (lk s)" for u
    using inv by (simp add: mon_inv_def mon_field_inv_def)
  have S: "(u \<in> set (lock_wchan (lk s))) = is_A_asleep (mpc s u)" for u
    using inv by (simp add: mon_inv_def mon_sleep_inv_def)
  have SC: "(u \<in> set (control_wchan (cond s))) = (mpc s u = W_asleep)" for u
    using inv by (simp add: mon_inv_def mon_sleep_inv_def)
  from w have nr: "\<not> (\<exists>c. mpc s t = R226 c)" by auto
  with mon_owner_fire [OF inv, of t e] own
  have 1: "lock_do_i_hold (lk (mon_fire e s)) t" by blast
  have 2: "acquire_waiting (mpc (mon_fire e s) t) \<and>
      (mpc s t = A_asleep Client \<longrightarrow> mpc (mon_fire e s) t = A_asleep Client)"
  proof (cases "m_panicked s")
    case True
    with w show ?thesis by (simp add: mon_fire_panicked)
  next
    case False
    show ?thesis
    proof (cases e)
      case (MCall u c)
      with False w show ?thesis
        by (cases "u = t") (auto simp: mon_fire_def mon_call_def mon_goto_def)
    next
      case (MStep u)
      show ?thesis
      proof (cases "u = t")
        case True
        with MStep False w own show ?thesis
          by (cases "mpc s t" rule: acquire_waiting.cases)
             (auto simp: mon_fire_def mon_step_def mon_aux_defs lock_do_i_hold_def
                split: option.splits if_splits)
      next
        case ne: False
        have rel: "lk_view_of (mpc s u) \<noteq> Released"
          using E[of u] own by (auto simp: lock_do_i_hold_def split: if_splits)
        have sc: "t \<notin> set (control_wchan (cond s))"
          using SC[of t] w by auto
        from ne rel sc w have "mpc (mon_step u s) t = mpc s t"
          by (cases "mpc s u")
             (auto simp: mon_step_def mon_aux_defs mon_wake_apply
                split: option.splits list.splits)
        with MStep False w show ?thesis by (simp add: mon_fire_def)
      qed
    next
      case (MIrq u b)
      with False w show ?thesis by (simp add: mon_fire_def)
    qed
  qed
  from 1 2 show ?thesis by simp
qed

lemma self_acquire_stuck_run:
  assumes "mon_inv s" and "acquire_waiting (mpc s t)" and "lock_do_i_hold (lk s) t"
  shows "acquire_waiting (mpc (mon_run es s) t) \<and> lock_do_i_hold (lk (mon_run es s)) t"
  using assms
proof (induction es arbitrary: s)
  case Nil
  then show ?case by simp
next
  case (Cons e es)
  have "mon_inv (mon_fire e s)" using Cons.prems(1) by (rule mon_inv_fire)
  with Cons.IH [of "mon_fire e s"] self_acquire_stuck_fire [OF Cons.prems, of e]
  show ?case by simp
qed

text \<open>
  Claim C10 fails as stated for an owner in interrupt context. Thread 0 acquires the lock,
  enters interrupt context and calls \<open>lock_acquire\<close> again: its first statement
  passes, and its second, the assertion of line 201, halts the kernel. The thread never
  reaches the loop test and never sleeps on the wait-channel.
\<close>

theorem lock_acquire_by_owner_in_interrupt_counterexample:
  "lock_do_i_hold (lk (mon_run run_acquire (mon_boot ''l'' ''c''))) 0 \<and>
   mpc (mon_run run_acquire (mon_boot ''l'' ''c'')) 0 = MonIdle \<and>
   m_panicked (mon_run (run_acquire @ [MIrq 0 True, MCall 0 (OpAcquire PTR), MStep 0])
     (mon_boot ''l'' ''c'')) = False \<and>
   mpc (mon_run (run_acquire @ [MIrq 0 True, MCall 0 (OpAcquire PTR), MStep 0])
     (mon_boot ''l'' ''c'')) 0 = A201 Client \<and>
   m_in_interrupt (mon_run run_acquire_in_interrupt (mon_boot ''l'' ''c'')) 0 = True \<and>
   m_panicked (mon_run run_acquire_in_interrupt (mon_boot ''l'' ''c'')) = True \<and>
   mpc (mon_run run_acquire_in_interrupt (mon_boot ''l'' ''c'')) 0 = A201 Client \<and>
   lock_wchan (lk (mon_run run_acquire_in_interrupt (mon_boot ''l'' ''c''))) = []"
  by (simp add: run_acquire_in_interrupt_def run_acquire_def run_acquire_midway_def mon_eval)

text \<open>
  Claim C10, amended: a thread \<open>t\<close> that owns the lock and is not in interrupt
  context calls \<open>lock_acquire\<close> again. Whatever the other threads do between its
  statements (short of halting the kernel or putting \<open>t\<close> in interrupt context),
  its first two statements pass both assertions and bring it to
  \<open>spinlock_acquire\<close> (line 203). Whatever happens after the call,
  \<open>t\<close> is still inside \<open>lock_acquire\<close> before line 212 and still the
  owner: the call never returns. None of its own statements fails an assertion while it is
  not in interrupt context; at line 203 it takes the guard if the guard is free and spins
  otherwise; at the loop test it finds the lock held, and its next two statements leave it
  enqueued on the wait-channel with the guard released; once asleep it is never woken.
\<close>

theorem lock_acquire_by_owner_never_returns:
  assumes "s0 = mon_run es0 (mon_boot lname cname)" and "\<not> m_panicked s0"
    and "mpc s0 t = MonIdle" and "lock_do_i_hold (lk s0) t"
    and "s = mon_run es (mon_fire (MCall t (OpAcquire PTR)) s0)"
  shows
    "(m_in_interrupt s0 t = False \<and>
      mon_aside t ea (mon_fire (MCall t (OpAcquire PTR)) s0) \<and> MIrq t True \<notin> set ea
        \<and>
      mon_asides t [es1, es2] (mon_run ea (mon_fire (MCall t (OpAcquire PTR)) s0)) \<and>
      MIrq t True \<notin> set es1 \<longrightarrow>
        mpc (mon_turns t [es1, es2] (mon_run ea (mon_fire (MCall t (OpAcquire PTR)) s0))) t
          = A203 Client \<and>
        \<not> m_panicked
            (mon_turns t [es1, es2] (mon_run ea (mon_fire (MCall t (OpAcquire PTR)) s0)))) \<and>
     mpc s t \<noteq> MonIdle \<and> acquire_waiting (mpc s t) \<and> lock_do_i_hold (lk s) t \<and>
     (\<not> m_panicked s \<and> m_in_interrupt s t = False \<longrightarrow>
        \<not> m_panicked (mon_step t s)) \<and>
     (mpc s t = A203 Client \<longrightarrow>
        (lock_lock (lk s) = None \<longrightarrow>
           mon_step t s
             = s\<lparr>lk := (lk s)\<lparr>lock_lock := Some t\<rparr>,
                 mpc := (mpc s)(t := A205 Client)\<rparr>) \<and>
        (lock_lock (lk s) \<noteq> None \<longrightarrow> mon_step t s = s)) \<and>
     (mpc s t = A205 Client \<and> \<not> m_panicked s \<and> mon_asides t [es1, []] s
       \<longrightarrow>
        lk (mon_turns t [es1, []] s)
          = (lk s)\<lparr>lock_wchan := lock_wchan (lk s) @ [t], lock_lock := None\<rparr> \<and>
        mpc (mon_turns t [es1, []] s) t = A_asleep Client \<and>
        \<not> m_panicked (mon_turns t [es1, []] s)) \<and>
     (mpc s t = A_asleep Client \<longrightarrow> mpc (mon_fire e s) t = A_asleep Client)"
proof -
  define s1 where "s1 = mon_fire (MCall t (OpAcquire PTR)) s0"
  have inv0: "mon_inv s0"
    unfolding assms(1) by (rule mon_inv_reachable)
  then have inv1: "mon_inv s1" unfolding s1_def by (rule mon_inv_fire)
  have pc1: "mpc s1 t = A200 PTR Client" and lk1: "lk s1 = lk s0"
    using assms(2,3) by (simp_all add: s1_def mon_fire_def mon_call_def mon_goto_def)
  then have w1: "acquire_waiting (mpc s1 t)" and own1: "lock_do_i_hold (lk s1) t"
    using assms(4) by simp_all
  have s: "s = mon_run es s1" by (simp add: assms(5) s1_def)
  have inv: "mon_inv s" unfolding s using inv1 by (rule mon_inv_run)
  have w: "acquire_waiting (mpc s t)" and own: "lock_do_i_hold (lk s) t"
    using self_acquire_stuck_run [OF inv1 w1 own1, of es] by (simp_all add: s)
  have pcwf: "mpc s t = A200 p Client \<longrightarrow> p = PTR" for p
  proof -
    have "acquire_waiting (mpc (mon_run xs s1) t) \<and> lock_do_i_hold (lk (mon_run xs s1)) t
      \<and>
        (\<forall>p. mpc (mon_run xs s1) t = A200 p Client \<longrightarrow> p = PTR)" for xs
    proof (induction xs rule: rev_induct)
      case Nil
      with w1 own1 pc1 show ?case by simp
    next
      case (snoc x xs)
      let ?m = "mon_run xs s1"
      have im: "mon_inv ?m" using inv1 by (rule mon_inv_run)
      from snoc have wm: "acquire_waiting (mpc ?m t)" and om: "lock_do_i_hold (lk ?m) t"
        and pm: "\<forall>p. mpc ?m t = A200 p Client \<longrightarrow> p = PTR" by simp_all
      note st = self_acquire_stuck_fire [OF im wm om, of x]
      have "\<forall>p. mpc (mon_fire x ?m) t = A200 p Client \<longrightarrow> p = PTR"
      proof (cases "x = MStep t")
        case True
        with wm pm show ?thesis
          by (cases "mpc ?m t" rule: acquire_waiting.cases; cases "m_panicked ?m")
             (auto simp: mon_fire_def mon_step_def mon_aux_defs split: option.splits if_splits)
      next
        case False
        from mon_fire_own_pc [OF this, of ?m] wm pm show ?thesis
          by (cases "mpc ?m t" rule: acquire_waiting.cases) auto
      qed
      with st show ?case by (simp add: mon_run_append)
    qed
    then show ?thesis by (simp add: s)
  qed
  have 0: "m_in_interrupt s0 t = False \<and>
      mon_aside t ea (mon_fire (MCall t (OpAcquire PTR)) s0) \<and> MIrq t True \<notin> set ea
        \<and>
      mon_asides t [es1, es2] (mon_run ea (mon_fire (MCall t (OpAcquire PTR)) s0)) \<and>
      MIrq t True \<notin> set es1 \<longrightarrow>
        mpc (mon_turns t [es1, es2] (mon_run ea (mon_fire (MCall t (OpAcquire PTR)) s0))) t
          = A203 Client \<and>
        \<not> m_panicked
            (mon_turns t [es1, es2] (mon_run ea (mon_fire (MCall t (OpAcquire PTR)) s0)))"
  proof (intro impI, elim conjE)
    assume h: "m_in_interrupt s0 t = False"
      "mon_aside t ea (mon_fire (MCall t (OpAcquire PTR)) s0)" "MIrq t True \<notin> set ea"
      "mon_asides t [es1, es2] (mon_run ea (mon_fire (MCall t (OpAcquire PTR)) s0))"
      "MIrq t True \<notin> set es1"
    note call = mon_call_frame [OF inv0 assms(2,3) h(2)]
    from call(1-3) call(5) [OF _ _ h(3) h(1)]
      mon_acquire_entry [of "mon_run ea (mon_fire (MCall t (OpAcquire PTR)) s0)" t Client,
        OF _ _ _ _ h(4,5)]
    show "mpc (mon_turns t [es1, es2] (mon_run ea (mon_fire (MCall t (OpAcquire PTR)) s0))) t
          = A203 Client \<and>
        \<not> m_panicked
            (mon_turns t [es1, es2] (mon_run ea (mon_fire (MCall t (OpAcquire PTR)) s0)))"
      by simp
  qed
  have 1: "mpc s t \<noteq> MonIdle" using w by auto
  have 2: "\<not> m_panicked s \<and> m_in_interrupt s t = False \<longrightarrow> \<not>
    m_panicked (mon_step t s)"
    using w own pcwf
    by (cases "mpc s t" rule: acquire_waiting.cases)
       (auto simp: mon_step_def mon_aux_defs lock_do_i_hold_def split: option.splits if_splits)
  have 3: "mpc s t = A203 Client \<longrightarrow>
        (lock_lock (lk s) = None \<longrightarrow>
           mon_step t s
             = s\<lparr>lk := (lk s)\<lparr>lock_lock := Some t\<rparr>,
                 mpc := (mpc s)(t := A205 Client)\<rparr>) \<and>
        (lock_lock (lk s) \<noteq> None \<longrightarrow> mon_step t s = s)"
    by (auto simp: mon_step_def mon_aux_defs)
  have nf: "free (lk s) = False"
    using own by (auto simp: lock_do_i_hold_def split: if_splits)
  show ?thesis
    using 0 1 2 3 w own mon_acquire_sleep [OF inv _ _ nf, of t Client es1]
      self_acquire_stuck_fire [OF inv w own, of e]
    by (simp del: mon_turns.simps mon_asides.simps)
qed

theorem lock_acquire_by_owner_never_returns_witness:
  "mpc (mon_run run_acquire (mon_boot ''l'' ''c'')) 0 = MonIdle \<and>
   lock_do_i_hold (lk (mon_run run_acquire (mon_boot ''l'' ''c''))) 0 \<and>
   mpc (mon_turns 0 [[MStep 1], [MIrq 1 True]]
     (mon_run [MCall 1 (OpAcquire PTR)]
       (mon_fire (MCall 0 (OpAcquire PTR)) (mon_run run_acquire (mon_boot ''l'' ''c''))))) 0
     = A203 Client \<and>
   \<not> m_panicked (mon_turns 0 [[MStep 1], [MIrq 1 True]]
     (mon_run [MCall 1 (OpAcquire PTR)]
       (mon_fire (MCall 0 (OpAcquire PTR)) (mon_run run_acquire (mon_boot ''l'' ''c''))))) \<and>
   mpc (mon_step 0 (mon_run [MStep 0, MStep 0]
     (mon_fire (MCall 0 (OpAcquire PTR)) (mon_run run_acquire (mon_boot ''l'' ''c''))))) 0
     = A205 Client \<and>
   \<not> m_panicked (mon_step 0 (mon_run [MStep 0, MStep 0]
     (mon_fire (MCall 0 (OpAcquire PTR)) (mon_run run_acquire (mon_boot ''l'' ''c''))))) \<and>
   mpc (mon_turns 0 [[MCall 1 (OpAcquire PTR)], []] (mon_run [MStep 0, MStep 0, MStep 0]
     (mon_fire (MCall 0 (OpAcquire PTR)) (mon_run run_acquire (mon_boot ''l'' ''c''))))) 0
     = A_asleep Client \<and>
   lock_wchan (lk (mon_turns 0 [[MCall 1 (OpAcquire PTR)], []] (mon_run [MStep 0, MStep 0, MStep 0]
     (mon_fire (MCall 0 (OpAcquire PTR)) (mon_run run_acquire (mon_boot ''l'' ''c''))))))
     = [0] \<and>
   mpc (mon_run [MStep 0, MStep 0, MStep 0, MStep 0, MStep 0]
     (mon_fire (MCall 0 (OpAcquire PTR)) (mon_run run_acquire (mon_boot ''l'' ''c'')))) 0
     = A_asleep Client \<and>
   \<not> m_panicked (mon_run [MStep 0, MStep 0, MStep 0, MStep 0, MStep 0]
     (mon_fire (MCall 0 (OpAcquire PTR)) (mon_run run_acquire (mon_boot ''l'' ''c'')))) \<and>
   lock_do_i_hold (lk (mon_run [MStep 0, MStep 0, MStep 0, MStep 0, MStep 0]
     (mon_fire (MCall 0 (OpAcquire PTR)) (mon_run run_acquire (mon_boot ''l'' ''c''))))) 0 \<and>
   mpc (mon_fire (MStep 1) (mon_run [MStep 0, MStep 0, MStep 0, MStep 0, MStep 0]
     (mon_fire (MCall 0 (OpAcquire PTR)) (mon_run run_acquire (mon_boot ''l'' ''c''))))) 0
     = A_asleep Client"
proof -
  define a where "a = mon_run run_acquire (mon_boot ''l'' ''c'')"
  define g where "g = mon_run [MStep 0, MStep 0] (mon_fire (MCall 0 (OpAcquire PTR)) a)"
  define h where "h = mon_run [MStep 0, MStep 0, MStep 0] (mon_fire (MCall 0 (OpAcquire PTR)) a)"
  define b where "b = mon_run [MStep 0, MStep 0, MStep 0, MStep 0, MStep 0]
    (mon_fire (MCall 0 (OpAcquire PTR)) a)"
  note runs = run_acquire_def run_acquire_midway_def
  have ea: "\<not> m_panicked a" "mpc a 0 = MonIdle" "lock_do_i_hold (lk a) 0"
    by (simp_all add: a_def runs mon_eval)
  have ei: "m_in_interrupt a 0 = False"
    "mon_aside 0 [MCall 1 (OpAcquire PTR)] (mon_fire (MCall 0 (OpAcquire PTR)) a)"
    "mon_asides 0 [[MStep 1], [MIrq 1 True]]
       (mon_run [MCall 1 (OpAcquire PTR)] (mon_fire (MCall 0 (OpAcquire PTR)) a))"
    by (simp_all add: a_def runs mon_aside_def mon_eval)
  have eg: "mpc g 0 = A203 Client" "lock_lock (lk g) = None" "\<not> m_panicked g"
    "m_in_interrupt g 0 = False"
    by (simp_all add: g_def a_def runs mon_eval)
  have eh: "mpc h 0 = A205 Client" "\<not> m_panicked h"
    "mon_asides 0 [[MCall 1 (OpAcquire PTR)], []] h" "lock_wchan (lk h) = []"
    by (simp_all add: h_def a_def runs mon_aside_def mon_eval)
  have eb: "mpc b 0 = A_asleep Client" "\<not> m_panicked b"
    by (simp_all add: b_def a_def runs mon_eval)
  note ti = lock_acquire_by_owner_never_returns
    [OF a_def ea refl, where ea = "[MCall 1 (OpAcquire PTR)]" and ?es1.0 = "[MStep 1]"
      and ?es2.0 = "[MIrq 1 True]"]
  note tg = lock_acquire_by_owner_never_returns [OF a_def ea g_def]
  note th = lock_acquire_by_owner_never_returns
    [OF a_def ea h_def, where ?es1.0 = "[MCall 1 (OpAcquire PTR)]"]
  note tb = lock_acquire_by_owner_never_returns [OF a_def ea b_def, where e = "MStep 1"]
  have ri: "mpc (mon_turns 0 [[MStep 1], [MIrq 1 True]]
       (mon_run [MCall 1 (OpAcquire PTR)] (mon_fire (MCall 0 (OpAcquire PTR)) a))) 0
      = A203 Client"
    "\<not> m_panicked (mon_turns 0 [[MStep 1], [MIrq 1 True]]
       (mon_run [MCall 1 (OpAcquire PTR)] (mon_fire (MCall 0 (OpAcquire PTR)) a)))"
    using ti ei by simp_all
  have rg: "mpc (mon_step 0 g) 0 = A205 Client" "\<not> m_panicked (mon_step 0 g)"
    using tg eg by simp_all
  have rh: "mpc (mon_turns 0 [[MCall 1 (OpAcquire PTR)], []] h) 0 = A_asleep Client"
    "lock_wchan (lk (mon_turns 0 [[MCall 1 (OpAcquire PTR)], []] h)) = [0]"
    using th eh by simp_all
  have rb: "lock_do_i_hold (lk b) 0" "mpc (mon_fire (MStep 1) b) 0 = A_asleep Client"
    using tb eb by simp_all
  show ?thesis
    using ea(2,3) ri rg rh eb rb unfolding a_def g_def h_def b_def by simp
qed

text \<open>
  Claim C3 fails for \<open>cv_wait\<close>. Thread 0 acquires the lock, enters interrupt context
  and calls \<open>cv_wait\<close>: no assertion fails; when the thread reaches the \<open>wchan_sleep\<close>
  of line 312 it holds the guard of the condition variable and has released the lock,
  and its next statement puts it to sleep on the wait-channel. \<open>lock_acquire\<close> and
  \<open>P\<close>, called in interrupt context, halt at their second statement (lines 201 and 99).
\<close>

theorem cv_wait_sleeps_in_interrupt_context:
  "m_in_interrupt (mon_run run_wait_in_interrupt (mon_boot ''l'' ''c'')) 0 = True \<and>
   m_panicked (mon_run run_wait_in_interrupt (mon_boot ''l'' ''c'')) = False \<and>
   mpc (mon_run run_wait_in_interrupt (mon_boot ''l'' ''c'')) 0 = W312 \<and>
   control_spinlock (cond (mon_run run_wait_in_interrupt (mon_boot ''l'' ''c''))) = Some 0 \<and>
   free (lk (mon_run run_wait_in_interrupt (mon_boot ''l'' ''c''))) = True \<and>
   curr_user (lk (mon_run run_wait_in_interrupt (mon_boot ''l'' ''c''))) = None \<and>
   m_panicked (mon_run (run_wait_in_interrupt @ [MStep 0]) (mon_boot ''l'' ''c'')) = False \<and>
   mpc (mon_run (run_wait_in_interrupt @ [MStep 0]) (mon_boot ''l'' ''c'')) 0 = W_asleep \<and>
   control_wchan (cond (mon_run (run_wait_in_interrupt @ [MStep 0]) (mon_boot ''l'' ''c'')))
     = [0] \<and>
   m_panicked (mon_run [MIrq 0 True, MCall 0 (OpAcquire PTR), MStep 0, MStep 0]
     (mon_boot ''l'' ''c'')) = True \<and>
   s_panicked (sem_run [SIrq 0 True, SCall 0 (OpP PTR), SStep 0, SStep 0]
     (sem_boot ''s'' 1)) = True"
  by (simp add: run_wait_in_interrupt_def run_acquire_def run_acquire_midway_def
      mon_eval sem_fire_def sem_call_def sem_step_def sem_goto_def sem_panic_def
      sem_boot_def)

section \<open>Properties of creation and destruction\<close>

lemmas life_defs = alloc_def kmalloc_def kstrdup_def wchan_create_def kfree_def
  wchan_destroy_def spinlock_cleanup_def

lemma sem_create_failure_frees:
  assumes "kmem_ok m" and "fst (sem_create name n m) = 0"
  shows "heap (snd (sem_create name n m)) = heap m"
  using assms
  by (auto simp: sem_create_def life_defs kmem_ok_def fun_eq_iff
      split: list.splits if_splits prod.splits)

lemma cv_create_failure_frees:
  assumes "kmem_ok m" and "fst (cv_create name m) = 0"
  shows "heap (snd (cv_create name m)) = heap m"
  using assms
  by (auto simp: cv_create_def life_defs kmem_ok_def fun_eq_iff
      split: list.splits if_splits prod.splits)

lemma lock_create_early_failure_frees:
  assumes "kmem_ok m" and "alloc_plan m = False # plan \<or> alloc_plan m = True # False # plan"
  shows "fst (lock_create name m) = 0 \<and> heap (snd (lock_create name m)) = heap m"
  using assms
  by (auto simp: lock_create_def life_defs kmem_ok_def fun_eq_iff)

lemma lock_create_wchan_failure_leaks:
  assumes "kmem_ok m" and "alloc_plan m = True # True # False # plan"
  shows "fst (lock_create name m) = 0 \<and>
         heap (snd (lock_create name m)) = (heap m)(Suc (brk m) \<mapsto> Str name)"
  using assms
  by (auto simp: lock_create_def life_defs kmem_ok_def fun_eq_iff)

text \<open>
  Claim C1 fails for \<open>lock_create\<close>. When \<open>kmalloc\<close> and \<open>kstrdup\<close> succeed and
  \<open>wchan_create\<close> fails, \<open>lock_create\<close> returns \<open>NULL\<close> and the duplicated name, at
  address 2, is still allocated. \<open>sem_create\<close> and \<open>cv_create\<close> on the same memory
  return \<open>NULL\<close> and leave the heap as it was.
\<close>

theorem lock_create_leaks_name:
  "fst (lock_create ''l'' mem_third_fails) = 0 \<and>
   heap mem_third_fails 2 = None \<and>
   heap (snd (lock_create ''l'' mem_third_fails)) 2 = Some (Str ''l'') \<and>
   fst (sem_create ''l'' 0 mem_third_fails) = 0 \<and>
   heap (snd (sem_create ''l'' 0 mem_third_fails)) = heap mem_third_fails \<and>
   fst (cv_create ''l'' mem_third_fails) = 0 \<and>
   heap (snd (cv_create ''l'' mem_third_fails)) = heap mem_third_fails"
  by (simp add: lock_create_def sem_create_def cv_create_def life_defs mem_third_fails_def
      fun_eq_iff)

lemma sem_create_view:
  assumes "kmem_ok m" and "fst (sem_create name n m) \<noteq> 0"
  shows "sem_view (snd (sem_create name n m)) (fst (sem_create name n m))
         = Some (sem (sem_boot name n))"
  using assms
  by (auto simp: sem_create_def sem_view_def life_defs kmem_ok_def sem_boot_def
      split: list.splits if_splits prod.splits)

lemma lock_create_view:
  assumes "kmem_ok m" and "fst (lock_create name m) \<noteq> 0"
  shows "lock_view (snd (lock_create name m)) (fst (lock_create name m))
         = Some (lk (mon_boot name cname))"
  using assms
  by (auto simp: lock_create_def lock_view_def life_defs kmem_ok_def mon_boot_def
      split: list.splits if_splits prod.splits)

lemma cv_create_view:
  assumes "kmem_ok m" and "fst (cv_create name m) \<noteq> 0"
  shows "cv_view (snd (cv_create name m)) (fst (cv_create name m))
         = Some (cond (mon_boot lname name))"
  using assms
  by (auto simp: cv_create_def cv_view_def life_defs kmem_ok_def mon_boot_def
      split: list.splits if_splits prod.splits)

lemma sem_destroy_sleepers:
  assumes "sem_view m p = Some s" and "sem_wchan s \<noteq> []"
  shows "sem_destroy p m = Halted m"
  using assms
  by (cases "sem_wchan s")
     (auto simp: sem_destroy_def sem_view_def life_defs
        split: option.splits kobj.splits list.splits if_splits)

lemma lock_destroy_sleepers:
  assumes "lock_view m p = Some l" and "lock_wchan l \<noteq> []"
  shows "lock_destroy p m = Halted m"
  using assms
  by (cases "lock_wchan l")
     (auto simp: lock_destroy_def lock_view_def life_defs
        split: option.splits kobj.splits list.splits if_splits)

lemma cv_destroy_sleepers:
  assumes "cv_view m p = Some c" and "control_wchan c \<noteq> []"
  shows "cv_destroy p m = Halted m"
  using assms
  by (cases "control_wchan c")
     (auto simp: cv_destroy_def cv_view_def life_defs
        split: option.splits kobj.splits list.splits if_splits)

lemma lock_destroy_held:
  assumes "lock_view m p = Some l" and "free l = False \<or> curr_user l \<noteq> None"
  shows "lock_destroy p m = Halted m"
  using assms
  by (auto simp: lock_destroy_def lock_view_def
        split: option.splits kobj.splits list.splits if_splits)

text \<open>
  Claim C7. If a thread is asleep in \<open>P\<close> on the semaphore, in \<open>lock_acquire\<close> on the
  lock or in \<open>cv_wait\<close> on the condition variable, in any reachable state, then
  destroying the object in that state halts the kernel with memory untouched: nothing
  has been freed. \<open>lock_destroy\<close> on a lock with \<open>free = false\<close> or with a
  \<open>curr_user\<close> halts as well, with memory untouched.
\<close>

theorem destroy_with_sleeper_halts:
  "(s = sem_run es (sem_boot name n) \<and> spc s t = P_asleep \<and> sem_view m p = Some (sem s)
      \<longrightarrow> sem_destroy p m = Halted m) \<and>
   (s' = mon_run es' (mon_boot lname cname) \<and> is_A_asleep (mpc s' t) \<and>
    lock_view m p = Some (lk s')
      \<longrightarrow> lock_destroy p m = Halted m) \<and>
   (s' = mon_run es' (mon_boot lname cname) \<and> mpc s' t = W_asleep \<and>
    cv_view m p = Some (cond s')
      \<longrightarrow> cv_destroy p m = Halted m) \<and>
   (lock_view m p = Some l \<and> (free l = False \<or> curr_user l \<noteq> None)
      \<longrightarrow> lock_destroy p m = Halted m)"
proof -
  have 1: "sem_destroy p m = Halted m"
    if "s = sem_run es (sem_boot name n)" "spc s t = P_asleep" "sem_view m p = Some (sem s)"
  proof -
    have "sem_inv n s" unfolding that(1) by (rule sem_inv_reachable)
    with that(2) have "t \<in> set (sem_wchan (sem s))"
      by (simp add: sem_inv_def sem_sleep_inv_def)
    then have "sem_wchan (sem s) \<noteq> []" by auto
    with that(3) show ?thesis by (rule sem_destroy_sleepers)
  qed
  have inv: "mon_inv s'" if "s' = mon_run es' (mon_boot lname cname)"
    unfolding that by (rule mon_inv_reachable)
  have 2: "lock_destroy p m = Halted m"
    if "s' = mon_run es' (mon_boot lname cname)" "is_A_asleep (mpc s' t)"
      "lock_view m p = Some (lk s')"
  proof -
    from inv [OF that(1)] that(2) have "t \<in> set (lock_wchan (lk s'))"
      by (simp add: mon_inv_def mon_sleep_inv_def)
    then have "lock_wchan (lk s') \<noteq> []" by auto
    with that(3) show ?thesis by (rule lock_destroy_sleepers)
  qed
  have 3: "cv_destroy p m = Halted m"
    if "s' = mon_run es' (mon_boot lname cname)" "mpc s' t = W_asleep"
      "cv_view m p = Some (cond s')"
  proof -
    from inv [OF that(1)] that(2) have "t \<in> set (control_wchan (cond s'))"
      by (simp add: mon_inv_def mon_sleep_inv_def)
    then have "control_wchan (cond s') \<noteq> []" by auto
    with that(3) show ?thesis by (rule cv_destroy_sleepers)
  qed
  show ?thesis
    using 1 2 3 lock_destroy_held [of m p l] by blast
qed

theorem destroy_with_sleeper_halts_witness:
  "spc (sem_run run_P_asleep (sem_boot ''s'' 0)) 0 = P_asleep \<and>
   sem_destroy 1 (mem_of_sem (sem (sem_run run_P_asleep (sem_boot ''s'' 0))))
     = Halted (mem_of_sem (sem (sem_run run_P_asleep (sem_boot ''s'' 0)))) \<and>
   mpc (mon_run run_lock_free_with_sleeper (mon_boot ''l'' ''c'')) 2 = A_asleep Client \<and>
   free (lk (mon_run run_lock_free_with_sleeper (mon_boot ''l'' ''c''))) = True \<and>
   curr_user (lk (mon_run run_lock_free_with_sleeper (mon_boot ''l'' ''c''))) = None \<and>
   lock_destroy 1 (mem_of_lock (lk (mon_run run_lock_free_with_sleeper (mon_boot ''l'' ''c''))))
     = Halted (mem_of_lock (lk (mon_run run_lock_free_with_sleeper (mon_boot ''l'' ''c'')))) \<and>
   mpc (mon_run run_wait_asleep (mon_boot ''l'' ''c'')) 0 = W_asleep \<and>
   cv_destroy 1 (mem_of_cv (cond (mon_run run_wait_asleep (mon_boot ''l'' ''c''))))
     = Halted (mem_of_cv (cond (mon_run run_wait_asleep (mon_boot ''l'' ''c'')))) \<and>
   free (lk (mon_run run_acquire (mon_boot ''l'' ''c''))) = False \<and>
   lock_destroy 1 (mem_of_lock (lk (mon_run run_acquire (mon_boot ''l'' ''c''))))
     = Halted (mem_of_lock (lk (mon_run run_acquire (mon_boot ''l'' ''c''))))"
proof -
  define a where "a = sem_run run_P_asleep (sem_boot ''s'' 0)"
  define b where "b = mon_run run_lock_free_with_sleeper (mon_boot ''l'' ''c'')"
  define c where "c = mon_run run_wait_asleep (mon_boot ''l'' ''c'')"
  define d where "d = mon_run run_acquire (mon_boot ''l'' ''c'')"
  have va: "sem_view (mem_of_sem x) 1 = Some x" for x
    by (simp add: sem_view_def mem_of_sem_def)
  have vb: "lock_view (mem_of_lock x) 1 = Some x" for x
    by (simp add: lock_view_def mem_of_lock_def)
  have vc: "cv_view (mem_of_cv x) 1 = Some x" for x
    by (simp add: cv_view_def mem_of_cv_def)
  have ea: "spc a 0 = P_asleep"
    by (simp add: a_def run_P_asleep_def run_P_line103_def sem_eval)
  have eb: "mpc b 2 = A_asleep Client" "free (lk b) = True" "curr_user (lk b) = None"
    by (simp_all add: b_def run_lock_free_with_sleeper_def run_lock_two_sleepers_def
        run_acquire_def run_acquire_midway_def mon_eval)
  have ec: "mpc c 0 = W_asleep"
    by (simp add: c_def run_wait_asleep_def run_wait_line226_def run_wait_line308_def
        run_wait_entry_def run_acquire_def run_acquire_midway_def mon_eval)
  have ed: "free (lk d) = False"
    by (simp add: d_def run_acquire_def run_acquire_midway_def mon_eval)
  have ta: "sem_destroy 1 (mem_of_sem (sem a)) = Halted (mem_of_sem (sem a))"
    using destroy_with_sleeper_halts
      [where s = a and es = run_P_asleep and name = "''s''" and n = 0 and t = 0
         and m = "mem_of_sem (sem a)" and p = 1] ea va
    by (simp add: a_def)
  have tb: "lock_destroy 1 (mem_of_lock (lk b)) = Halted (mem_of_lock (lk b))"
    using destroy_with_sleeper_halts
      [where s' = b and es' = run_lock_free_with_sleeper and lname = "''l''" and cname = "''c''"
         and t = 2 and m = "mem_of_lock (lk b)" and p = 1] eb vb
    by (simp add: b_def)
  have tc: "cv_destroy 1 (mem_of_cv (cond c)) = Halted (mem_of_cv (cond c))"
    using destroy_with_sleeper_halts
      [where s' = c and es' = run_wait_asleep and lname = "''l''" and cname = "''c''"
         and t = 0 and m = "mem_of_cv (cond c)" and p = 1] ec vc
    by (simp add: c_def)
  have td: "lock_destroy 1 (mem_of_lock (lk d)) = Halted (mem_of_lock (lk d))"
    using destroy_with_sleeper_halts
      [where m = "mem_of_lock (lk d)" and p = 1 and l = "lk d"] ed vb
    by simp
  show ?thesis
    using ea eb ec ed ta tb tc td unfolding a_def b_def c_def d_def by blast
qed

end
